theory Spec2Isabelle
  imports Main "HOL-Library.AList" "HOL-Library.Char_ord" "HOL-Library.List_Lexorder"
begin

section \<open>Hierarchy reconstruction for classification codes\<close>

text \<open>
  A shallow embedding of \<^verbatim>\<open>fix_hierarchy_bruteforce_ranges.py\<close> (schedule files, called
  Dialect A below) and \<^verbatim>\<open>fix_hierarchy_bruteforce_ranges_tables.py\<close> (table files,
  Dialect B). Both scripts define functions of the same names; the functions of the table
  script carry the suffix \<open>_tables\<close> here.

  Python strings are modelled as \<open>string\<close>, that is lists of \<open>char\<close>; a \<open>char\<close> stands for
  the code point of the same number, so the model covers the strings whose code points
  are below 256.
\<close>

subsection \<open>String operations of Python\<close>

text \<open>\<^verbatim>\<open>s.startswith(p)\<close>\<close>

definition startswith :: "string \<Rightarrow> string \<Rightarrow> bool" where
  "startswith s p = (take (length p) s = p)"

text \<open>\<^verbatim>\<open>sub in s\<close> for strings.\<close>

fun contains :: "string \<Rightarrow> string \<Rightarrow> bool" where
  "contains sub [] = (sub = [])"
| "contains sub (x # xs) = (startswith (x # xs) sub \<or> contains sub xs)"

definition cons_hd :: "char \<Rightarrow> string list \<Rightarrow> string list" where
  "cons_hd x ps = (case ps of [] \<Rightarrow> [[x]] | p # qs \<Rightarrow> (x # p) # qs)"

text \<open>
  \<^verbatim>\<open>s.split(sep)\<close> for a separator that is not empty (the scripts split on the
  literals \<^verbatim>\<open>'-'\<close>, \<^verbatim>\<open>'--'\<close> and \<^verbatim>\<open>'.'\<close> only): the string is scanned from the
  left and cut at every occurrence of the separator that does not overlap an earlier one.
\<close>

function py_split :: "string \<Rightarrow> string \<Rightarrow> string list" where
  "py_split sep [] = [[]]"
| "py_split sep (x # xs) =
     (if sep \<noteq> [] \<and> startswith (x # xs) sep
      then [] # py_split sep (drop (length sep) (x # xs))
      else cons_hd x (py_split sep xs))"
  by pat_completeness auto
termination
  by (relation "measure (\<lambda>(sep, s). length s)") auto

text \<open>\<^verbatim>\<open>sep.join(parts)\<close>\<close>

fun py_join :: "string \<Rightarrow> string list \<Rightarrow> string" where
  "py_join sep [] = []"
| "py_join sep [p] = p"
| "py_join sep (p # q # ps) = p @ sep @ py_join sep (q # ps)"

text \<open>
  \<^verbatim>\<open>s.rsplit(c, 1)\<close> for a string that contains the character \<open>c\<close>: the part before
  the last \<open>c\<close> and the part after it.
\<close>

definition rsplit1 :: "char \<Rightarrow> string \<Rightarrow> string \<times> string" where
  "rsplit1 c s =
     (rev (tl (dropWhile (\<lambda>x. x \<noteq> c) (rev s))), rev (takeWhile (\<lambda>x. x \<noteq> c) (rev s)))"

text \<open>\<^verbatim>\<open>s.split(c, 1)[0]\<close>: the part before the first \<open>c\<close> (all of \<open>s\<close> without one).\<close>

definition split1_head :: "char \<Rightarrow> string \<Rightarrow> string" where
  "split1_head c s = takeWhile (\<lambda>x. x \<noteq> c) s"

text \<open>\<^verbatim>\<open>s.split(c, 1)[1]\<close> for a string that contains \<open>c\<close>: the part after the first \<open>c\<close>.\<close>

definition split1_tail :: "char \<Rightarrow> string \<Rightarrow> string" where
  "split1_tail c s = tl (dropWhile (\<lambda>x. x \<noteq> c) s)"

text \<open>\<^verbatim>\<open>s.lstrip('-')\<close>\<close>

definition lstrip_dash :: "string \<Rightarrow> string" where
  "lstrip_dash s = dropWhile (\<lambda>x. x = CHR ''-'') s"

subsection \<open>Digits and integers\<close>

definition is_ascii_digit :: "char \<Rightarrow> bool" where
  "is_ascii_digit c = (CHR ''0'' \<le> c \<and> c \<le> CHR ''9'')"

text \<open>
  \<^verbatim>\<open>str.isdigit()\<close>: the string is not empty and every character has the Unicode
  property of a digit; below 256 these are the ten decimal digits and the superscripts
  two, three and one (code points 178, 179 and 185).
\<close>

definition is_digit_char :: "char \<Rightarrow> bool" where
  "is_digit_char c =
     (is_ascii_digit c \<or> (of_char c :: nat) = 178 \<or> (of_char c :: nat) = 179
        \<or> (of_char c :: nat) = 185)"

definition isdigit :: "string \<Rightarrow> bool" where
  "isdigit s = (s \<noteq> [] \<and> list_all is_digit_char s)"

text \<open>
  The white space that \<^verbatim>\<open>int()\<close> strips from both ends: the ASCII white space
  (code points 9 to 13 and 32) and, of the code points above 127, the two that are
  Unicode white space (133 and 160). The separators 28 to 31 are white space for
  \<^verbatim>\<open>str.isspace\<close> but \<^verbatim>\<open>int()\<close> does not strip them.
\<close>

definition is_space :: "char \<Rightarrow> bool" where
  "is_space c =
     (let n = (of_char c :: nat)
      in (9 \<le> n \<and> n \<le> 13) \<or> n = 32 \<or> n = 133 \<or> n = 160)"

definition strip :: "string \<Rightarrow> string" where
  "strip s = rev (dropWhile is_space (rev (dropWhile is_space s)))"

text \<open>
  The digits of a decimal literal, most significant first; \<open>acc\<close> is the value read so
  far and \<open>prev\<close> says that the character before was a digit. An underscore is accepted
  between two digits only.
\<close>

fun digits_value :: "int \<Rightarrow> bool \<Rightarrow> string \<Rightarrow> int option" where
  "digits_value acc prev [] = (if prev then Some acc else None)"
| "digits_value acc prev (c # cs) =
     (if is_ascii_digit c then digits_value (10 * acc + (int (of_char c) - 48)) True cs
      else if c = CHR ''_'' \<and> prev then digits_value acc False cs
      else None)"

text \<open>
  The bound of the interpreter on the number of digits of a decimal literal, at its
  default value (interpreters from version 3.11 on).
\<close>

definition max_str_digits :: nat where
  "max_str_digits = 4300"

text \<open>
  \<^verbatim>\<open>int(s)\<close>: \<open>None\<close> is the \<^verbatim>\<open>ValueError\<close>, which every caller catches. After the
  white space an optional sign, then at least one digit; a literal with more digits than
  the bound is refused.
\<close>

definition py_int :: "string \<Rightarrow> int option" where
  "py_int s =
     (case strip s of
        [] \<Rightarrow> None
      | c # cs \<Rightarrow>
          (let body = (if c = CHR ''-'' \<or> c = CHR ''+'' then cs else c # cs)
           in if length (filter is_ascii_digit body) > max_str_digits then None
              else if c = CHR ''-'' then map_option uminus (digits_value 0 False body)
              else digits_value 0 False body))"

subsection \<open>Dialect A: splitting, parents and range expansion\<close>

definition has_dash :: "string \<Rightarrow> bool" where
  "has_dash c = (CHR ''-'' \<in> set c)"

definition has_dot :: "string \<Rightarrow> bool" where
  "has_dot c = (CHR ''.'' \<in> set c)"

definition split_range :: "string \<Rightarrow> (string \<times> string) option" where
  "split_range code =
     (if \<not> has_dash code then None
      else (case py_split ''-'' code of
              [l, r] \<Rightarrow> Some (l, r)
            | _ \<Rightarrow> None))"

text \<open>
  The loop \<^verbatim>\<open>for i in range(len(parts)-1, 0, -1)\<close> of \<^verbatim>\<open>compute_broader\<close>: the
  candidates are the first \<open>i\<close> segments, joined again, for \<open>i\<close> counting down to 1.
\<close>

fun broader_loop :: "string list \<Rightarrow> string set \<Rightarrow> nat \<Rightarrow> string option" where
  "broader_loop parts simple_set 0 = None"
| "broader_loop parts simple_set (Suc i) =
     (let cand = py_join ''.'' (take (Suc i) parts)
      in if cand \<in> simple_set then Some cand else broader_loop parts simple_set i)"

text \<open>
  \<^verbatim>\<open>compute_broader\<close>. The source writes \<^verbatim>\<open>split_range(code) or (None, None)\<close> and
  then tests \<^verbatim>\<open>left\<close> for truth: a missing split and an empty left bound both skip the
  branch.
\<close>

definition compute_broader :: "string \<Rightarrow> string set \<Rightarrow> string option" where
  "compute_broader code simple_set =
     (if has_dash code then
        (let left = map_option fst (split_range code);
             dotted =
               (if has_dot code then
                  (case left of
                     Some l \<Rightarrow>
                       if l \<noteq> [] \<and> has_dot l \<and> fst (rsplit1 CHR ''.'' l) \<in> simple_set
                       then Some (fst (rsplit1 CHR ''.'' l)) else None
                   | None \<Rightarrow> None)
                else None)
         in case dotted of
              Some parent \<Rightarrow> Some parent
            | None \<Rightarrow>
                (case left of
                   Some l \<Rightarrow> if l \<noteq> [] \<and> l \<in> simple_set then Some l else None
                 | None \<Rightarrow> None))
      else if \<not> has_dot code then None
      else (let parts = py_split ''.'' code
            in broader_loop parts simple_set (length parts - 1)))"

definition range_parent :: "string \<Rightarrow> string set \<Rightarrow> string option" where
  "range_parent code simple_set =
     (if \<not> has_dash code then None
      else (case split_range code of
              None \<Rightarrow> None
            | Some (left, right) \<Rightarrow>
                if has_dot left then
                  (let base_root = split1_head CHR ''.'' left
                   in if base_root \<in> simple_set then Some base_root else None)
                else if left \<in> simple_set then Some left
                else None))"

text \<open>
  \<^verbatim>\<open>expand_range_children\<close>. The loops run over a set and collect into a set, so they
  are the comprehensions below; \<^verbatim>\<open>int()\<close> failing is caught and skips the code (or,
  for a bound, returns the empty set).
\<close>

definition expand_range_children :: "string \<Rightarrow> string set \<Rightarrow> string set" where
  "expand_range_children range_code simple_codes =
     (case split_range range_code of
        None \<Rightarrow> {}
      | Some (left, right) \<Rightarrow>
          if \<not> has_dot left \<and> \<not> has_dot right then
            (case (py_int left, py_int right) of
               (Some l, Some r) \<Rightarrow>
                 {sc \<in> simple_codes. \<not> has_dash sc \<and> \<not> has_dot sc \<and>
                    (case py_int sc of None \<Rightarrow> False | Some v \<Rightarrow> l \<le> v \<and> v \<le> r)}
             | _ \<Rightarrow> {})
          else if has_dot left \<and> has_dot right then
            (let (lpref, ltail) = rsplit1 CHR ''.'' left;
                 (rpref, rtail) = rsplit1 CHR ''.'' right
             in if lpref \<noteq> rpref then {}
                else (case (py_int ltail, py_int rtail) of
                        (Some li, Some ri) \<Rightarrow>
                          (let target_prefix = lpref @ ''.''
                           in {sc \<in> simple_codes. startswith sc target_prefix \<and> \<not> has_dash sc \<and>
                                 (let rest = drop (length target_prefix) sc
                                  in rest \<noteq> [] \<and> \<not> has_dot rest \<and>
                                     (case py_int rest of
                                        None \<Rightarrow> False
                                      | Some vi \<Rightarrow> li \<le> vi \<and> vi \<le> ri))})
                      | _ \<Rightarrow> {}))
          else {})"

subsection \<open>Dialect B: splitting, parents and range expansion\<close>

definition has_ddash :: "string \<Rightarrow> bool" where
  "has_ddash c = contains ''--'' c"

definition split_range_tables :: "string \<Rightarrow> (string \<times> string) option" where
  "split_range_tables code =
     (if \<not> has_ddash code then None
      else (case py_split ''--'' code of
              [l, r] \<Rightarrow> Some (l, r)
            | _ \<Rightarrow> None))"

text \<open>
  The loop \<^verbatim>\<open>for i in range(len(s) - 1, 0, -1)\<close> over the prefixes \<^verbatim>\<open>s[:i]\<close>, which
  \<^verbatim>\<open>compute_broader\<close> and \<^verbatim>\<open>range_parent\<close> of the table script both run.
\<close>

fun prefix_loop :: "string \<Rightarrow> string set \<Rightarrow> nat \<Rightarrow> string option" where
  "prefix_loop s simple_set 0 = None"
| "prefix_loop s simple_set (Suc i) =
     (let cand = take (Suc i) s
      in if cand \<in> simple_set then Some cand else prefix_loop s simple_set i)"

definition compute_broader_tables :: "string \<Rightarrow> string set \<Rightarrow> string option" where
  "compute_broader_tables code simple_set =
     (if has_ddash code then
        (case map_option fst (split_range_tables code) of
           Some left \<Rightarrow>
             if left \<noteq> [] then prefix_loop left simple_set (length left - 1) else None
         | None \<Rightarrow> None)
      else if length code \<le> 1 then None
      else prefix_loop code simple_set (length code - 1))"

definition range_parent_tables :: "string \<Rightarrow> string set \<Rightarrow> string option" where
  "range_parent_tables code simple_set =
     (if \<not> has_ddash code then None
      else (case split_range_tables code of
              None \<Rightarrow> None
            | Some (left, right) \<Rightarrow> prefix_loop left simple_set (length left - 1)))"

definition expand_range_children_tables :: "string \<Rightarrow> string set \<Rightarrow> string set" where
  "expand_range_children_tables range_code simple_codes =
     (case split_range_tables range_code of
        None \<Rightarrow> {}
      | Some (left, right) \<Rightarrow>
          (case (py_int (lstrip_dash left), py_int (lstrip_dash right)) of
             (Some l, Some r) \<Rightarrow>
               {sc \<in> simple_codes. \<not> has_ddash sc \<and> isdigit (lstrip_dash sc) \<and>
                  (case py_int (lstrip_dash sc) of None \<Rightarrow> False | Some v \<Rightarrow> l \<le> v \<and> v \<le> r)}
           | _ \<Rightarrow> {}))"

subsection \<open>Entries, failures and the store of entries\<close>

text \<open>
  The value that \<^verbatim>\<open>json.loads\<close> returns. A number is observed through its truth value
  only (zero or not), so \<open>JNum\<close> carries an integer. A dictionary is the list of its
  items in insertion order, with \<^verbatim>\<open>d[k] = v\<close> as \<open>AList.update\<close>: the value of a key
  that is present is replaced in place, a new key goes to the end.
\<close>

datatype json =
    JNull
  | JBool bool
  | JNum int
  | JStr string
  | JArr "json list"
  | JObj "(string \<times> json) list"

text \<open>
  The ways a file fails: its root is not a list (reported, no output written), or an
  exception that \<^verbatim>\<open>process_file\<close> does not catch.
\<close>

datatype failure = RootNotList | TypeError | AttributeError | KeyError

fun truthy :: "json \<Rightarrow> bool" where
  "truthy JNull = False"
| "truthy (JBool b) = b"
| "truthy (JNum n) = (n \<noteq> 0)"
| "truthy (JStr s) = (s \<noteq> [])"
| "truthy (JArr xs) = (xs \<noteq> [])"
| "truthy (JObj d) = (d \<noteq> [])"

text \<open>\<^verbatim>\<open>d.get(k)\<close>\<close>

definition dict_get :: "(string \<times> json) list \<Rightarrow> string \<Rightarrow> json" where
  "dict_get d k = (case map_of d k of None \<Rightarrow> JNull | Some v \<Rightarrow> v)"

text \<open>\<^verbatim>\<open>e[k] = v\<close>, which raises \<^verbatim>\<open>TypeError\<close> on a value that is not a dictionary.\<close>

definition set_item :: "string \<Rightarrow> json \<Rightarrow> json \<Rightarrow> failure + json" where
  "set_item k v e = (case e of JObj d \<Rightarrow> Inr (JObj (AList.update k v d)) | _ \<Rightarrow> Inl TypeError)"

definition json_of_code :: "string option \<Rightarrow> json" where
  "json_of_code c = (case c of None \<Rightarrow> JNull | Some s \<Rightarrow> JStr s)"

text \<open>A loop whose body may raise: the first failure ends it.\<close>

fun foldM :: "('a \<Rightarrow> 's \<Rightarrow> failure + 's) \<Rightarrow> 'a list \<Rightarrow> 's \<Rightarrow> failure + 's" where
  "foldM f [] s = Inr s"
| "foldM f (x # xs) s = (case f x s of Inl e \<Rightarrow> Inl e | Inr s' \<Rightarrow> foldM f xs s')"

text \<open>
  The entries of a file are objects that \<^verbatim>\<open>code_to_entries\<close> refers to and that the
  last loop of \<^verbatim>\<open>process_file\<close> mutates through these references. The store is the
  list of entries, a reference is a position in it. \<open>build_indices\<close> records positions of
  the list only, so the last case of \<open>store_apply\<close> never runs.
\<close>

definition store_apply :: "(json \<Rightarrow> failure + json) \<Rightarrow> nat \<Rightarrow> json list \<Rightarrow> failure + json list" where
  "store_apply f i es =
     (if i < length es
      then (case f (es ! i) of Inl e \<Rightarrow> Inl e | Inr e' \<Rightarrow> Inr (es[i := e']))
      else Inr es)"

text \<open>
  A dictionary of sets, \<^verbatim>\<open>Dict[str, Set[str]]\<close>, with \<^verbatim>\<open>m[k].add(v)\<close> and
  \<^verbatim>\<open>m[k].update(vs)\<close>; both raise \<^verbatim>\<open>KeyError\<close> on a missing key.
\<close>

type_synonym child_dict = "(string \<times> string set) list"

definition dict_add :: "child_dict \<Rightarrow> string \<Rightarrow> string \<Rightarrow> failure + child_dict" where
  "dict_add m k v =
     (case map_of m k of
        None \<Rightarrow> Inl KeyError
      | Some _ \<Rightarrow> Inr (AList.map_entry k (insert v) m))"

definition dict_union :: "child_dict \<Rightarrow> string \<Rightarrow> string set \<Rightarrow> failure + child_dict" where
  "dict_union m k vs =
     (case map_of m k of
        None \<Rightarrow> Inl KeyError
      | Some _ \<Rightarrow> Inr (AList.map_entry k (\<lambda>s. s \<union> vs) m))"

text \<open>\<^verbatim>\<open>m.get(k, [])\<close> on a dictionary of sets, as the argument of \<^verbatim>\<open>sorted\<close>.\<close>

definition dict_get_set :: "child_dict \<Rightarrow> string \<Rightarrow> string set" where
  "dict_get_set m k = (case map_of m k of None \<Rightarrow> {} | Some s \<Rightarrow> s)"

subsection \<open>Dialect A: code extraction and the code index\<close>

text \<open>
  \<^verbatim>\<open>ID_CODE_RE.match(idv)\<close> for \<^verbatim>\<open>^Volume\d+-(.+)$\<close>, ignoring case; the result is
  group 1. After the word and at least one decimal digit comes a dash; the rest must be
  at least one character, none of them a line feed except one that ends the string, and
  the group is the rest without that line feed.
\<close>

definition volume_prefix :: "string \<Rightarrow> bool" where
  "volume_prefix s = list_all2 (\<lambda>x (lo, up). x = lo \<or> x = up) s (zip ''volume'' ''VOLUME'')"

definition match_id_code :: "string \<Rightarrow> string option" where
  "match_id_code s =
     (if \<not> volume_prefix (take 6 s) then None
      else (let digits = takeWhile is_ascii_digit (drop 6 s);
                rest = dropWhile is_ascii_digit (drop 6 s)
            in if digits = [] then None
               else (case rest of
                       [] \<Rightarrow> None
                     | c # tail \<Rightarrow>
                         if c \<noteq> CHR ''-'' then None
                         else (let grp = takeWhile (\<lambda>x. x \<noteq> CHR 0x0A) tail;
                                   after = dropWhile (\<lambda>x. x \<noteq> CHR 0x0A) tail
                               in if grp \<noteq> [] \<and> (after = [] \<or> after = [CHR 0x0A])
                                  then Some grp else None))))"

text \<open>
  \<^verbatim>\<open>extract_code\<close>. \<^verbatim>\<open>re.match\<close> raises \<^verbatim>\<open>TypeError\<close> on an \<^verbatim>\<open>id\<close> that is true
  and not a string. A \<^verbatim>\<open>notation\<close> that is true and not a string is returned by the
  source as the code and raises \<^verbatim>\<open>TypeError\<close> in \<^verbatim>\<open>process_file\<close> afterwards, when
  the code is hashed or searched for a dash, before anything is written; the model raises
  it here.
\<close>

definition extract_code :: "(string \<times> json) list \<Rightarrow> failure + string" where
  "extract_code entry =
     (let idv = (if truthy (dict_get entry ''id'') then dict_get entry ''id'' else JStr [])
      in case idv of
           JStr s \<Rightarrow>
             (case match_id_code s of
                None \<Rightarrow>
                  (let notation = dict_get entry ''notation''
                   in if truthy notation
                      then (case notation of JStr c \<Rightarrow> Inr c | _ \<Rightarrow> Inl TypeError)
                      else Inr [])
              | Some grp \<Rightarrow> Inr grp)
         | _ \<Rightarrow> Inl TypeError)"

text \<open>
  \<^verbatim>\<open>build_indices\<close>: the loop over the entries, \<open>i\<close> being the position of the entry at
  hand. It returns the entries with \<^verbatim>\<open>bfCode\<close> set and \<^verbatim>\<open>code_to_entries\<close>, in which
  \<^verbatim>\<open>setdefault(code, []).append(e)\<close> is \<open>AList.map_default\<close>.
\<close>

fun build_indices ::
  "json list \<Rightarrow> nat \<Rightarrow> (string \<times> nat list) list \<Rightarrow>
     failure + (json list \<times> (string \<times> nat list) list)" where
  "build_indices [] i code_to_entries = Inr ([], code_to_entries)"
| "build_indices (e # es) i code_to_entries =
     (case e of
        JObj d \<Rightarrow>
          (case extract_code d of
             Inl f \<Rightarrow> Inl f
           | Inr code \<Rightarrow>
               (case build_indices es (Suc i)
                       (if code \<noteq> []
                        then AList.map_default code [i] (\<lambda>ents. ents @ [i]) code_to_entries
                        else code_to_entries) of
                  Inl f \<Rightarrow> Inl f
                | Inr (es', idx) \<Rightarrow> Inr (JObj (AList.update ''bfCode'' (JStr code) d) # es', idx)))
      | _ \<Rightarrow>
          (case build_indices es (Suc i) code_to_entries of
             Inl f \<Rightarrow> Inl f
           | Inr (es', idx) \<Rightarrow> Inr (e # es', idx)))"

subsection \<open>Dialect A: children and the file\<close>

text \<open>The test of the inner loop of \<^verbatim>\<open>immediate_children_simple\<close>.\<close>

definition immediate_child :: "string \<Rightarrow> string \<Rightarrow> bool" where
  "immediate_child c d =
     (let prefix = c @ ''.''
      in startswith d prefix \<and> \<not> has_dash d \<and>
         (let remainder = drop (length prefix) d
          in remainder \<noteq> [] \<and> \<not> has_dot remainder))"

definition immediate_children_simple :: "string list \<Rightarrow> failure + child_dict" where
  "immediate_children_simple codes =
     foldM (\<lambda>c children.
              if has_dash c then Inr children
              else foldM (\<lambda>d children.
                            if immediate_child c d then dict_add children c d else Inr children)
                     codes children)
       codes (map (\<lambda>c. (c, {})) codes)"

text \<open>
  The part of \<^verbatim>\<open>process_file\<close> that builds \<^verbatim>\<open>child_map\<close> from the codes. Python
  iterates the set \<^verbatim>\<open>range_codes\<close> in an order of its own; the model takes the order
  of the codes, and the result does not depend on it (each step writes one key or adds to
  one set).
\<close>

definition build_child_map :: "string list \<Rightarrow> failure + child_dict" where
  "build_child_map codes =
     (let simple_codes = {c \<in> set codes. \<not> has_dash c};
          range_codes = filter has_dash codes
      in case immediate_children_simple codes of
           Inl f \<Rightarrow> Inl f
         | Inr simple_child_map \<Rightarrow>
             (let range_children =
                    fold (\<lambda>rc m. AList.update rc (expand_range_children rc simple_codes) m)
                      range_codes []
              in case foldM (\<lambda>(c, kids) m. dict_union m c kids) simple_child_map
                        (map (\<lambda>c. (c, {})) codes) of
                   Inl f \<Rightarrow> Inl f
                 | Inr m1 \<Rightarrow>
                     (case foldM (\<lambda>(rc, kids) m. dict_union m rc kids) range_children m1 of
                        Inl f \<Rightarrow> Inl f
                      | Inr m2 \<Rightarrow>
                          foldM (\<lambda>rc m.
                                   case range_parent rc simple_codes of
                                     None \<Rightarrow> Inr m
                                   | Some parent \<Rightarrow>
                                       if parent \<noteq> [] then dict_add m parent rc else Inr m)
                            range_codes m2)))"

definition hierarchy_json :: "string option \<Rightarrow> string list \<Rightarrow> json" where
  "hierarchy_json broader narrower =
     JObj [(''broader'', json_of_code broader), (''narrower'', JArr (map JStr narrower))]"

text \<open>\<^verbatim>\<open>broader_map.get(code)\<close>\<close>

definition broader_get :: "(string \<times> string option) list \<Rightarrow> string \<Rightarrow> string option" where
  "broader_get m k = (case map_of m k of None \<Rightarrow> None | Some b \<Rightarrow> b)"

text \<open>
  \<^verbatim>\<open>process_file\<close>, from the parsed root of the file to the entries that are written
  out. The report is not modelled.
\<close>

definition process_file :: "json \<Rightarrow> failure + json list" where
  "process_file root =
     (case root of
        JArr entries \<Rightarrow>
          (case build_indices entries 0 [] of
             Inl f \<Rightarrow> Inl f
           | Inr (es, code_to_entries) \<Rightarrow>
               (let codes = map fst code_to_entries;
                    simple_codes = {c \<in> set codes. \<not> has_dash c}
                in case build_child_map codes of
                     Inl f \<Rightarrow> Inl f
                   | Inr child_map \<Rightarrow>
                       (let broader_map = map (\<lambda>c. (c, compute_broader c simple_codes)) codes
                        in foldM (\<lambda>(code, ents) es.
                                    let narrower_sorted =
                                          sorted_list_of_set (dict_get_set child_map code);
                                        broader = broader_get broader_map code
                                    in foldM (\<lambda>i es.
                                                store_apply
                                                  (set_item ''hierarchy''
                                                     (hierarchy_json broader narrower_sorted))
                                                  i es)
                                         ents es)
                             code_to_entries es)))
      | _ \<Rightarrow> Inl RootNotList)"

subsection \<open>Dialect B: code extraction, children and the file\<close>

text \<open>
  \<^verbatim>\<open>extract_code\<close> of the table script. \<^verbatim>\<open>entry.get('id', '')\<close> is the empty string
  only when the key is missing; calling \<^verbatim>\<open>startswith\<close> on a value that is not a string
  raises \<^verbatim>\<open>AttributeError\<close>. A \<^verbatim>\<open>notation\<close> that is true and not a string is
  returned by the source and raises \<^verbatim>\<open>TypeError\<close> afterwards, when the code is
  hashed in \<^verbatim>\<open>build_indices\<close> or searched for the separator in
  \<^verbatim>\<open>process_file\<close>, before anything is written; the model raises it here, as in
  Dialect A. The file fails in the model exactly when it fails in the source; where a
  later entry raises \<^verbatim>\<open>AttributeError\<close> before the source reaches that point, the
  source reports the later exception and the model this one.
\<close>

definition extract_code_tables :: "(string \<times> json) list \<Rightarrow> failure + string option" where
  "extract_code_tables entry =
     (let notation = dict_get entry ''notation''
      in if truthy notation
         then (case notation of JStr c \<Rightarrow> Inr (Some c) | _ \<Rightarrow> Inl TypeError)
         else (case (case map_of entry ''id'' of None \<Rightarrow> JStr [] | Some v \<Rightarrow> v) of
                 JStr id_str \<Rightarrow>
                   if startswith id_str ''T'' \<and> CHR '':'' \<in> set id_str
                   then Inr (Some (split1_tail CHR '':'' id_str))
                   else Inr None
               | _ \<Rightarrow> Inl AttributeError))"

fun build_indices_tables ::
  "json list \<Rightarrow> nat \<Rightarrow> (string \<times> nat list) list \<Rightarrow>
     failure + (json list \<times> (string \<times> nat list) list)" where
  "build_indices_tables [] i code_to_entries = Inr ([], code_to_entries)"
| "build_indices_tables (e # es) i code_to_entries =
     (case e of
        JObj d \<Rightarrow>
          (case extract_code_tables d of
             Inl f \<Rightarrow> Inl f
           | Inr code \<Rightarrow>
               (case build_indices_tables es (Suc i)
                       (case code of
                          None \<Rightarrow> code_to_entries
                        | Some c \<Rightarrow>
                            if c \<noteq> []
                            then AList.map_default c [i] (\<lambda>ents. ents @ [i]) code_to_entries
                            else code_to_entries) of
                  Inl f \<Rightarrow> Inl f
                | Inr (es', idx) \<Rightarrow>
                    Inr (JObj (AList.update ''bfCode'' (json_of_code code) d) # es', idx)))
      | _ \<Rightarrow>
          (case build_indices_tables es (Suc i) code_to_entries of
             Inl f \<Rightarrow> Inl f
           | Inr (es', idx) \<Rightarrow> Inr (e # es', idx)))"

definition immediate_child_tables :: "string \<Rightarrow> string \<Rightarrow> bool" where
  "immediate_child_tables c d =
     (\<not> (d = c \<or> has_ddash d) \<and> startswith d c \<and> length d > length c \<and>
      (let remainder = drop (length c) d
       in isdigit remainder \<and> length remainder \<le> 3))"

definition immediate_children_simple_tables :: "string list \<Rightarrow> failure + child_dict" where
  "immediate_children_simple_tables codes =
     foldM (\<lambda>c children.
              if has_ddash c then Inr children
              else foldM (\<lambda>d children.
                            if immediate_child_tables c d then dict_add children c d
                            else Inr children)
                     codes children)
       codes (map (\<lambda>c. (c, {})) codes)"

definition build_child_map_tables :: "string list \<Rightarrow> failure + child_dict" where
  "build_child_map_tables codes =
     (let simple_codes = {c \<in> set codes. \<not> has_ddash c};
          range_codes = filter has_ddash codes
      in case immediate_children_simple_tables codes of
           Inl f \<Rightarrow> Inl f
         | Inr simple_child_map \<Rightarrow>
             (let range_children =
                    fold (\<lambda>rc m. AList.update rc (expand_range_children_tables rc simple_codes) m)
                      range_codes []
              in case foldM (\<lambda>(c, kids) m. dict_union m c kids) simple_child_map
                        (map (\<lambda>c. (c, {})) codes) of
                   Inl f \<Rightarrow> Inl f
                 | Inr m1 \<Rightarrow>
                     foldM (\<lambda>(rc, kids) m.
                              case dict_union m rc kids of
                                Inl f \<Rightarrow> Inl f
                              | Inr m' \<Rightarrow>
                                  (case range_parent_tables rc simple_codes of
                                     None \<Rightarrow> Inr m'
                                   | Some parent \<Rightarrow>
                                       if parent \<noteq> [] then dict_add m' parent rc else Inr m'))
                       range_children m1))"

text \<open>
  The body of the last loop of the table script: a missing \<^verbatim>\<open>hierarchy\<close> becomes an
  empty dictionary, then its keys \<^verbatim>\<open>narrower\<close> and \<^verbatim>\<open>broader\<close> are set; a
  \<^verbatim>\<open>hierarchy\<close> that is present and not a dictionary raises \<^verbatim>\<open>TypeError\<close>.
\<close>

definition assign_hierarchy_tables :: "string option \<Rightarrow> string list \<Rightarrow> json \<Rightarrow> failure + json" where
  "assign_hierarchy_tables broader narrower entry =
     (case entry of
        JObj d \<Rightarrow>
          (let d1 = (if map_of d ''hierarchy'' = None
                     then AList.update ''hierarchy'' (JObj []) d else d)
           in case set_item ''narrower'' (JArr (map JStr narrower)) (dict_get d1 ''hierarchy'') of
                Inl f \<Rightarrow> Inl f
              | Inr h1 \<Rightarrow>
                  (case set_item ''broader'' (json_of_code broader) h1 of
                     Inl f \<Rightarrow> Inl f
                   | Inr h2 \<Rightarrow> Inr (JObj (AList.update ''hierarchy'' h2 d1))))
      | _ \<Rightarrow> Inl TypeError)"

definition process_file_tables :: "json \<Rightarrow> failure + json list" where
  "process_file_tables root =
     (case root of
        JArr entries \<Rightarrow>
          (case build_indices_tables entries 0 [] of
             Inl f \<Rightarrow> Inl f
           | Inr (es, code_to_entries) \<Rightarrow>
               (let codes = map fst code_to_entries;
                    simple_codes = {c \<in> set codes. \<not> has_ddash c}
                in case build_child_map_tables codes of
                     Inl f \<Rightarrow> Inl f
                   | Inr child_map \<Rightarrow>
                       (let broader_map =
                              map (\<lambda>c. (c, compute_broader_tables c simple_codes)) codes
                        in foldM (\<lambda>(c, entry_list) es.
                                    let narrower = sorted_list_of_set (dict_get_set child_map c);
                                        broader = broader_get broader_map c
                                    in foldM (\<lambda>i es.
                                                store_apply
                                                  (assign_hierarchy_tables broader narrower) i es)
                                         entry_list es)
                             code_to_entries es)))
      | _ \<Rightarrow> Inl RootNotList)"

subsection \<open>What the loops compute\<close>

text \<open>
  The functions below say in closed form what the loops of \<^verbatim>\<open>process_file\<close> compute;
  the section on the files proves them equal to the loops.

  The code of an entry that enters the code index, if any.
\<close>

definition entry_code :: "json \<Rightarrow> string option" where
  "entry_code e =
     (case e of
        JObj d \<Rightarrow> (case extract_code d of Inl f \<Rightarrow> None | Inr c \<Rightarrow> if c \<noteq> [] then Some c else None)
      | _ \<Rightarrow> None)"

definition index_codes :: "json list \<Rightarrow> string set" where
  "index_codes es = set (List.map_filter entry_code es)"

definition children_of :: "string set \<Rightarrow> string \<Rightarrow> string set" where
  "children_of C c =
     (let S = {s \<in> C. \<not> has_dash s}
      in (if has_dash c then expand_range_children c S else {d \<in> C. immediate_child c d}) \<union>
         {rc \<in> C. has_dash rc \<and> range_parent rc S = Some c \<and> c \<noteq> []})"

definition hierarchy_of :: "string set \<Rightarrow> string \<Rightarrow> json" where
  "hierarchy_of C c =
     hierarchy_json (compute_broader c {s \<in> C. \<not> has_dash s})
       (sorted_list_of_set (children_of C c))"

text \<open>What \<^verbatim>\<open>process_file\<close> does to one entry, given the codes of the index.\<close>

definition annotate :: "string set \<Rightarrow> json \<Rightarrow> failure + json" where
  "annotate C e =
     (case e of
        JObj d \<Rightarrow>
          (case extract_code d of
             Inl f \<Rightarrow> Inl f
           | Inr c \<Rightarrow>
               if c \<noteq> []
               then set_item ''hierarchy'' (hierarchy_of C c)
                      (JObj (AList.update ''bfCode'' (JStr c) d))
               else Inr (JObj (AList.update ''bfCode'' (JStr c) d)))
      | _ \<Rightarrow> Inr e)"

definition entry_code_tables :: "json \<Rightarrow> string option" where
  "entry_code_tables e =
     (case e of
        JObj d \<Rightarrow>
          (case extract_code_tables d of
             Inl f \<Rightarrow> None
           | Inr None \<Rightarrow> None
           | Inr (Some c) \<Rightarrow> if c \<noteq> [] then Some c else None)
      | _ \<Rightarrow> None)"

definition index_codes_tables :: "json list \<Rightarrow> string set" where
  "index_codes_tables es = set (List.map_filter entry_code_tables es)"

definition children_of_tables :: "string set \<Rightarrow> string \<Rightarrow> string set" where
  "children_of_tables C c =
     (let S = {s \<in> C. \<not> has_ddash s}
      in (if has_ddash c then expand_range_children_tables c S
          else {d \<in> C. immediate_child_tables c d}) \<union>
         {rc \<in> C. has_ddash rc \<and> range_parent_tables rc S = Some c \<and> c \<noteq> []})"

definition annotate_tables :: "string set \<Rightarrow> json \<Rightarrow> failure + json" where
  "annotate_tables C e =
     (case e of
        JObj d \<Rightarrow>
          (case extract_code_tables d of
             Inl f \<Rightarrow> Inl f
           | Inr code \<Rightarrow>
               (case entry_code_tables e of
                  Some c \<Rightarrow>
                    assign_hierarchy_tables (compute_broader_tables c {s \<in> C. \<not> has_ddash s})
                      (sorted_list_of_set (children_of_tables C c))
                      (JObj (AList.update ''bfCode'' (json_of_code code) d))
                | None \<Rightarrow> Inr (JObj (AList.update ''bfCode'' (json_of_code code) d))))
      | _ \<Rightarrow> Inr e)"

text \<open>
  Reading the result: the \<^verbatim>\<open>hierarchy\<close> of an entry that was written out, and one
  field of it.
\<close>

definition entry_hierarchy :: "json \<Rightarrow> json" where
  "entry_hierarchy e = (case e of JObj d \<Rightarrow> dict_get d ''hierarchy'' | _ \<Rightarrow> JNull)"

definition hierarchy_field :: "string \<Rightarrow> json \<Rightarrow> json" where
  "hierarchy_field k e = (case entry_hierarchy e of JObj h \<Rightarrow> dict_get h k | _ \<Rightarrow> JNull)"

text \<open>
  The loop of \<^verbatim>\<open>build_indices\<close> over an extraction function that returns the value
  written to \<^verbatim>\<open>bfCode\<close> and the key under which the entry is indexed, if any. The
  loops of both scripts are instances of it (\<open>build_indices_index_loop\<close>,
  \<open>build_indices_tables_index_loop\<close>).
\<close>

type_synonym extractor = "(string \<times> json) list \<Rightarrow> failure + (json \<times> string option)"

fun index_loop ::
  "extractor \<Rightarrow> json list \<Rightarrow> nat \<Rightarrow> (string \<times> nat list) list \<Rightarrow>
     failure + (json list \<times> (string \<times> nat list) list)" where
  "index_loop ex [] i code_to_entries = Inr ([], code_to_entries)"
| "index_loop ex (e # es) i code_to_entries =
     (case e of
        JObj d \<Rightarrow>
          (case ex d of
             Inl f \<Rightarrow> Inl f
           | Inr (bf, key) \<Rightarrow>
               (case index_loop ex es (Suc i)
                       (case key of
                          None \<Rightarrow> code_to_entries
                        | Some c \<Rightarrow> AList.map_default c [i] (\<lambda>ents. ents @ [i]) code_to_entries) of
                  Inl f \<Rightarrow> Inl f
                | Inr (es', idx) \<Rightarrow> Inr (JObj (AList.update ''bfCode'' bf d) # es', idx)))
      | _ \<Rightarrow>
          (case index_loop ex es (Suc i) code_to_entries of
             Inl f \<Rightarrow> Inl f
           | Inr (es', idx) \<Rightarrow> Inr (e # es', idx)))"

text \<open>An entry with its \<^verbatim>\<open>bfCode\<close> set, and the key of an entry.\<close>

definition stamped :: "extractor \<Rightarrow> json \<Rightarrow> failure + json" where
  "stamped ex e =
     (case e of
        JObj d \<Rightarrow>
          (case ex d of Inl f \<Rightarrow> Inl f | Inr (bf, key) \<Rightarrow> Inr (JObj (AList.update ''bfCode'' bf d)))
      | _ \<Rightarrow> Inr e)"

definition key_of :: "extractor \<Rightarrow> json \<Rightarrow> string option" where
  "key_of ex e =
     (case e of
        JObj d \<Rightarrow> (case ex d of Inl f \<Rightarrow> None | Inr (bf, key) \<Rightarrow> key)
      | _ \<Rightarrow> None)"

definition extractor_a :: extractor where
  "extractor_a d =
     (case extract_code d of
        Inl f \<Rightarrow> Inl f
      | Inr c \<Rightarrow> Inr (JStr c, if c \<noteq> [] then Some c else None))"

definition extractor_b :: extractor where
  "extractor_b d =
     (case extract_code_tables d of
        Inl f \<Rightarrow> Inl f
      | Inr code \<Rightarrow>
          Inr (json_of_code code,
               case code of None \<Rightarrow> None | Some c \<Rightarrow> if c \<noteq> [] then Some c else None))"

text \<open>
  The index after the loop: every key has a list of positions that is not empty, the
  positions of a key are positions of entries with that key, and the position of every
  entry with a key is among the positions of its key.
\<close>

definition index_inv :: "extractor \<Rightarrow> json list \<Rightarrow> nat \<Rightarrow> (string \<times> nat list) list \<Rightarrow> bool" where
  "index_inv ex all i cte =
     (distinct (map fst cte) \<and>
      (\<forall>c ps. map_of cte c = Some ps \<longrightarrow>
          ps \<noteq> [] \<and> (\<forall>p\<in>set ps. p < i \<and> key_of ex (all ! p) = Some c)) \<and>
      (\<forall>p<i. \<forall>c. key_of ex (all ! p) = Some c \<longrightarrow>
          (\<exists>ps. map_of cte c = Some ps \<and> p \<in> set ps)))"

text \<open>
  A step on a dictionary of sets that succeeds, leaves the keys \<open>ks\<close> as they are and
  adds the set \<open>G k\<close> to the value of every key \<open>k\<close>.
\<close>

definition grows ::
  "string list \<Rightarrow> (string \<Rightarrow> string set) \<Rightarrow> child_dict \<Rightarrow> failure + child_dict \<Rightarrow> bool" where
  "grows ks G m r =
     (\<exists>m'. r = Inr m' \<and> map fst m' = ks \<and>
           (\<forall>k. map_of m' k = map_option (\<lambda>s. s \<union> G k) (map_of m k)))"

section \<open>Properties\<close>

subsection \<open>Splitting and joining\<close>

lemma py_split_nonempty: "py_split sep s \<noteq> []"
  by (induction sep s rule: py_split.induct) (auto simp: cons_hd_def split: list.splits)

lemma py_join_cons_hd: "ps \<noteq> [] \<Longrightarrow> py_join sep (cons_hd x ps) = x # py_join sep ps"
  by (cases ps; cases "tl ps") (auto simp: cons_hd_def)

lemma py_join_empty_head: "ps \<noteq> [] \<Longrightarrow> py_join sep ([] # ps) = sep @ py_join sep ps"
  by (cases ps) auto

lemma startswith_append_drop: "startswith s p \<Longrightarrow> p @ drop (length p) s = s"
  by (metis append_take_drop_id startswith_def)

lemma py_join_py_split: "sep \<noteq> [] \<Longrightarrow> py_join sep (py_split sep s) = s"
proof (induction sep s rule: py_split.induct)
  case (1 sep)
  then show ?case by simp
next
  case (2 sep x xs)
  show ?case
  proof (cases "startswith (x # xs) sep")
    case True
    with 2 show ?thesis
      using startswith_append_drop[of "x # xs" sep]
      by (simp add: py_join_empty_head py_split_nonempty)
  next
    case False
    with 2 show ?thesis
      by (simp add: py_join_cons_hd py_split_nonempty)
  qed
qed

lemma py_join_take_drop:
  "0 < k \<Longrightarrow> k < length ps \<Longrightarrow>
   py_join sep ps = py_join sep (take k ps) @ sep @ py_join sep (drop k ps)"
proof (induction sep ps arbitrary: k rule: py_join.induct)
  case (1 sep)
  then show ?case by simp
next
  case (2 sep p)
  then show ?case by simp
next
  case (3 sep p q ps)
  show ?case
  proof (cases k)
    case 0
    with 3 show ?thesis by simp
  next
    case (Suc j)
    show ?thesis
    proof (cases j)
      case 0
      with Suc show ?thesis by simp
    next
      case (Suc i)
      have "0 < j" "j < length (q # ps)" using Suc 3(2,3) \<open>k = Suc j\<close> by auto
      from "3.IH"[OF this]
      have "py_join sep (q # ps) = py_join sep (take j (q # ps)) @ sep @ py_join sep (drop j (q # ps))" .
      moreover have "take k (p # q # ps) = p # take j (q # ps)" "drop k (p # q # ps) = drop j (q # ps)"
        using \<open>k = Suc j\<close> by auto
      moreover have "take j (q # ps) \<noteq> []" using \<open>0 < j\<close> by auto
      ultimately show ?thesis
        by (cases "take j (q # ps)") auto
    qed
  qed
qed

subsection \<open>The truncation loops\<close>

lemma broader_loop_Some:
  "broader_loop parts S i = Some p \<Longrightarrow>
   \<exists>k. 0 < k \<and> k \<le> i \<and> p = py_join ''.'' (take k parts) \<and> p \<in> S"
proof (induction i)
  case 0
  then show ?case by simp
next
  case (Suc i)
  then show ?case
    by (auto simp: Let_def le_Suc_eq split: if_splits)
qed

lemma prefix_loop_Some:
  "prefix_loop s S i = Some p \<Longrightarrow>
   \<exists>k. 0 < k \<and> k \<le> i \<and> p = take k s \<and> p \<in> S \<and> (\<forall>j. k < j \<and> j \<le> i \<longrightarrow> take j s \<notin> S)"
proof (induction i)
  case 0
  then show ?case by simp
next
  case (Suc i)
  show ?case
  proof (cases "take (Suc i) s \<in> S")
    case True
    with Suc.prems have "p = take (Suc i) s" by simp
    with True show ?thesis by (intro exI[of _ "Suc i"]) auto
  next
    case False
    with Suc.prems have "prefix_loop s S i = Some p" by simp
    from Suc.IH[OF this] obtain k where k: "0 < k" "k \<le> i" "p = take k s" "p \<in> S"
      "\<forall>j. k < j \<and> j \<le> i \<longrightarrow> take j s \<notin> S" by blast
    have "\<forall>j. k < j \<and> j \<le> Suc i \<longrightarrow> take j s \<notin> S"
      using k(5) False by (auto simp: le_Suc_eq)
    with k show ?thesis by (intro exI[of _ k]) auto
  qed
qed

lemma prefix_loop_None:
  "prefix_loop s S i = None \<longleftrightarrow> (\<forall>k. 0 < k \<and> k \<le> i \<longrightarrow> take k s \<notin> S)"
proof (induction i)
  case 0
  then show ?case by simp
next
  case (Suc i)
  then show ?case by (auto simp: Let_def le_Suc_eq)
qed



subsection \<open>Parents of range codes\<close>

lemma one_sep_decomp:
  "length (filter (\<lambda>x. x = c) s) = 1 \<Longrightarrow> \<exists>a b. s = a @ c # b \<and> c \<notin> set a \<and> c \<notin> set b"
proof (induction s)
  case Nil
  then show ?case by simp
next
  case (Cons x xs)
  show ?case
  proof (cases "x = c")
    case True
    with Cons.prems have "filter (\<lambda>x. x = c) xs = []" by simp
    then have "c \<notin> set xs" by (auto simp: filter_empty_conv)
    with True show ?thesis by (intro exI[of _ "[]"] exI[of _ xs]) simp
  next
    case False
    with Cons.prems have "length (filter (\<lambda>x. x = c) xs) = 1" by simp
    from Cons.IH[OF this] obtain a b where "xs = a @ c # b" "c \<notin> set a" "c \<notin> set b" by blast
    with False show ?thesis by (intro exI[of _ "x # a"] exI[of _ b]) simp
  qed
qed

lemma rsplit1_decomp:
  assumes "c \<notin> set b"
  shows "rsplit1 c (a @ c # b) = (a, b)"
proof -
  have d: "dropWhile (\<lambda>x. x \<noteq> c) (rev b) = []"
    using assms by auto
  have t: "takeWhile (\<lambda>x. x \<noteq> c) (rev b) = rev b"
    using assms by auto
  have r: "rev (a @ c # b) = rev b @ c # rev a" by simp
  have "dropWhile (\<lambda>x. x \<noteq> c) (rev b @ c # rev a) = c # rev a"
    using d by (simp add: dropWhile_append3)
  moreover have "takeWhile (\<lambda>x. x \<noteq> c) (rev b @ c # rev a) = rev b"
    using t by (simp add: takeWhile_tail)
  ultimately show ?thesis
    unfolding rsplit1_def r by simp
qed

lemma split1_head_decomp: "c \<notin> set a \<Longrightarrow> split1_head c (a @ c # b) = a"
  by (auto simp: split1_head_def takeWhile_tail)

lemma one_dot_parent_is_root:
  assumes "length (filter (\<lambda>x. x = CHR ''.'') l) = 1"
  shows "fst (rsplit1 CHR ''.'' l) = split1_head CHR ''.'' l" and "has_dot l"
proof -
  from one_sep_decomp[OF assms] obtain a b where
    l: "l = a @ CHR ''.'' # b" "CHR ''.'' \<notin> set a" "CHR ''.'' \<notin> set b" by blast
  then show "fst (rsplit1 CHR ''.'' l) = split1_head CHR ''.'' l"
    by (simp add: rsplit1_decomp split1_head_decomp)
  from l show "has_dot l" by (simp add: has_dot_def)
qed

lemma split_range_None_parents:
  "has_dash r \<Longrightarrow> split_range r = None \<Longrightarrow> range_parent r S = None \<and> compute_broader r S = None"
  by (simp add: range_parent_def compute_broader_def)

lemma undotted_left_parents:
  assumes "[] \<notin> S" "split_range r = Some (l, rt)" "\<not> has_dot l"
  shows "range_parent r S = compute_broader r S"
proof -
  from assms(2) have "has_dash r" by (auto simp: split_range_def split: if_splits)
  with assms show ?thesis
    by (auto simp: range_parent_def compute_broader_def Let_def)
qed

lemma one_dot_left_parents:
  assumes "split_range r = Some (l, rt)" "length (filter (\<lambda>x. x = CHR ''.'') l) = 1"
    "split1_head CHR ''.'' l \<in> S \<or> l \<notin> S"
  shows "range_parent r S = compute_broader r S"
proof -
  from assms(1) have d: "has_dash r" by (auto simp: split_range_def split: if_splits)
  note p = one_dot_parent_is_root[OF assms(2)]
  from assms(1) have "py_join ''-'' (py_split ''-'' r) = py_join ''-'' [l, rt]"
    by (auto simp: split_range_def split: if_splits list.splits)
  then have "r = l @ ''-'' @ rt" by (simp add: py_join_py_split)
  with p(2) have dr: "has_dot r" by (simp add: has_dot_def)
  from p(2) have ne: "l \<noteq> []" by (auto simp: has_dot_def)
  from assms(1,3) d dr p ne show ?thesis
    by (auto simp: range_parent_def compute_broader_def Let_def)
qed

lemma tables_parents_agree:
  "has_ddash t \<Longrightarrow> range_parent_tables t T = compute_broader_tables t T"
  by (auto simp: range_parent_tables_def compute_broader_tables_def split: option.splits)

lemma last_sep_decomp: "c \<in> set s \<Longrightarrow> \<exists>a b. s = a @ c # b \<and> c \<notin> set b"
  by (rule split_list_last)

lemma deep_left_truncation_has_sep:
  assumes "2 \<le> length (filter (\<lambda>x. x = c) s)"
  shows "c \<in> set (fst (rsplit1 c s))"
proof -
  from assms have "filter (\<lambda>x. x = c) s \<noteq> []" by auto
  then have "c \<in> set s" by (auto simp: filter_empty_conv)
  from last_sep_decomp[OF this] obtain a b where s: "s = a @ c # b" "c \<notin> set b" by blast
  then have "filter (\<lambda>x. x = c) b = []" by (auto simp: filter_empty_conv)
  with assms s(1) have "1 \<le> length (filter (\<lambda>x. x = c) a)" by simp
  then have "filter (\<lambda>x. x = c) a \<noteq> []" by auto
  then have "c \<in> set a" by (auto simp: filter_empty_conv)
  with s show ?thesis by (simp add: rsplit1_decomp)
qed

lemma first_segment_no_sep: "c \<notin> set (split1_head c s)"
  by (auto simp: split1_head_def dest: set_takeWhileD)

lemma deep_left_segments_differ:
  assumes "2 \<le> length (filter (\<lambda>x. x = c) s)"
  shows "split1_head c s \<noteq> fst (rsplit1 c s)"
  using deep_left_truncation_has_sep[OF assms] first_segment_no_sep[of c s] by auto

lemma split_range_Some_code:
  assumes "split_range r = Some (l, rt)"
  shows "has_dash r" and "r = l @ ''-'' @ rt"
proof -
  from assms show "has_dash r" by (auto simp: split_range_def split: if_splits)
  from assms have "py_join ''-'' (py_split ''-'' r) = py_join ''-'' [l, rt]"
    by (auto simp: split_range_def split: if_splits list.splits)
  then show "r = l @ ''-'' @ rt" by (simp add: py_join_py_split)
qed

lemma dotted_left_attachment:
  assumes "split_range r = Some (l, rt)" "has_dot l"
  shows "range_parent r S =
           (if split1_head CHR ''.'' l \<in> S then Some (split1_head CHR ''.'' l) else None)"
  using assms split_range_Some_code(1)[OF assms(1)]
  by (simp add: range_parent_def Let_def)

lemma dotted_left_broader:
  assumes "split_range r = Some (l, rt)" "has_dot l" "fst (rsplit1 CHR ''.'' l) \<in> S"
  shows "compute_broader r S = Some (fst (rsplit1 CHR ''.'' l))"
proof -
  note c = split_range_Some_code[OF assms(1)]
  from c(2) assms(2) have dr: "has_dot r" by (simp add: has_dot_def)
  from assms(2) have ne: "l \<noteq> []" by (auto simp: has_dot_def)
  from assms c(1) dr ne show ?thesis by (simp add: compute_broader_def Let_def)
qed

lemma deep_left_parents_differ:
  assumes "split_range r = Some (l, rt)" "2 \<le> length (filter (\<lambda>x. x = CHR ''.'') l)"
    "fst (rsplit1 CHR ''.'' l) \<in> S"
  shows "range_parent r S \<noteq> compute_broader r S"
proof -
  from assms(2) have "filter (\<lambda>x. x = CHR ''.'') l \<noteq> []" by auto
  then have d: "has_dot l" by (auto simp: has_dot_def filter_empty_conv)
  from dotted_left_attachment[OF assms(1) d, of S] dotted_left_broader[OF assms(1) d assms(3)]
    deep_left_segments_differ[OF assms(2)]
  show ?thesis by (auto split: if_splits)
qed

text \<open>
  C1, as amended. In Dialect B the code under which a range code is attached is always
  its broader code. In Dialect A, over an index without the empty code, the two agree for
  a range code that does not split into two bounds (both are null), for a left bound
  without a dot, and for a left bound with exactly one dot whose first segment is a point
  code of the index or which is not a point code itself. For a dotted left bound the
  attachment parent is the first segment of the left bound when that is a point code of
  the index and null otherwise, and the broader code is the left bound without its last
  segment whenever that is a point code of the index; so for a left bound with two or
  more dots whose truncation is a point code of the index the two differ.
\<close>

theorem attachment_parent_agrees:
  "(has_ddash t \<longrightarrow> range_parent_tables t T = compute_broader_tables t T) \<and>
   ([] \<notin> S \<and> has_dash r \<and>
    (case split_range r of
       None \<Rightarrow> True
     | Some (left, right) \<Rightarrow>
         \<not> has_dot left \<or>
         (length (filter (\<lambda>x. x = CHR ''.'') left) = 1 \<and>
          (split1_head CHR ''.'' left \<in> S \<or> left \<notin> S)))
    \<longrightarrow> range_parent r S = compute_broader r S) \<and>
   (split_range r = Some (left, right) \<and> has_dot left \<longrightarrow>
      range_parent r S =
        (if split1_head CHR ''.'' left \<in> S then Some (split1_head CHR ''.'' left) else None) \<and>
      (fst (rsplit1 CHR ''.'' left) \<in> S \<longrightarrow>
         compute_broader r S = Some (fst (rsplit1 CHR ''.'' left))) \<and>
      (2 \<le> length (filter (\<lambda>x. x = CHR ''.'') left) \<and> fst (rsplit1 CHR ''.'' left) \<in> S \<longrightarrow>
         range_parent r S \<noteq> compute_broader r S))"
proof -
  have A: "has_ddash t \<longrightarrow> range_parent_tables t T = compute_broader_tables t T"
    by (rule impI) (rule tables_parents_agree)
  have B: "[] \<notin> S \<and> has_dash r \<and>
    (case split_range r of
       None \<Rightarrow> True
     | Some (left, right) \<Rightarrow>
         \<not> has_dot left \<or>
         (length (filter (\<lambda>x. x = CHR ''.'') left) = 1 \<and>
          (split1_head CHR ''.'' left \<in> S \<or> left \<notin> S)))
    \<longrightarrow> range_parent r S = compute_broader r S"
  proof (rule impI)
    assume a: "[] \<notin> S \<and> has_dash r \<and>
      (case split_range r of
         None \<Rightarrow> True
       | Some (left, right) \<Rightarrow>
           \<not> has_dot left \<or>
           (length (filter (\<lambda>x. x = CHR ''.'') left) = 1 \<and>
            (split1_head CHR ''.'' left \<in> S \<or> left \<notin> S)))"
    show "range_parent r S = compute_broader r S"
    proof (cases "split_range r")
      case None
      with a show ?thesis by (simp add: split_range_None_parents)
    next
      case (Some lr)
      obtain l rt where lr: "lr = (l, rt)" by (cases lr)
      show ?thesis
      proof (cases "has_dot l")
        case False
        with a Some lr show ?thesis by (auto intro: undotted_left_parents)
      next
        case True
        with a Some lr show ?thesis by (auto intro: one_dot_left_parents)
      qed
    qed
  qed
  have C: "split_range r = Some (left, right) \<and> has_dot left \<longrightarrow>
      range_parent r S =
        (if split1_head CHR ''.'' left \<in> S then Some (split1_head CHR ''.'' left) else None) \<and>
      (fst (rsplit1 CHR ''.'' left) \<in> S \<longrightarrow>
         compute_broader r S = Some (fst (rsplit1 CHR ''.'' left))) \<and>
      (2 \<le> length (filter (\<lambda>x. x = CHR ''.'') left) \<and> fst (rsplit1 CHR ''.'' left) \<in> S \<longrightarrow>
         range_parent r S \<noteq> compute_broader r S)"
  proof (rule impI)
    assume "split_range r = Some (left, right) \<and> has_dot left"
    then have s: "split_range r = Some (left, right)" and d: "has_dot left" by simp_all
    have 1: "range_parent r S =
        (if split1_head CHR ''.'' left \<in> S then Some (split1_head CHR ''.'' left) else None)"
      by (rule dotted_left_attachment[OF s d])
    have 2: "fst (rsplit1 CHR ''.'' left) \<in> S \<longrightarrow>
         compute_broader r S = Some (fst (rsplit1 CHR ''.'' left))"
      by (rule impI) (rule dotted_left_broader[OF s d])
    have 3: "2 \<le> length (filter (\<lambda>x. x = CHR ''.'') left) \<and> fst (rsplit1 CHR ''.'' left) \<in> S \<longrightarrow>
         range_parent r S \<noteq> compute_broader r S"
    proof (rule impI)
      assume "2 \<le> length (filter (\<lambda>x. x = CHR ''.'') left) \<and> fst (rsplit1 CHR ''.'' left) \<in> S"
      then show "range_parent r S \<noteq> compute_broader r S"
        using deep_left_parents_differ[OF s] by blast
    qed
    from 1 2 3 show "range_parent r S =
        (if split1_head CHR ''.'' left \<in> S then Some (split1_head CHR ''.'' left) else None) \<and>
      (fst (rsplit1 CHR ''.'' left) \<in> S \<longrightarrow>
         compute_broader r S = Some (fst (rsplit1 CHR ''.'' left))) \<and>
      (2 \<le> length (filter (\<lambda>x. x = CHR ''.'') left) \<and> fst (rsplit1 CHR ''.'' left) \<in> S \<longrightarrow>
         range_parent r S \<noteq> compute_broader r S)"
      by (intro conjI)
  qed
  from A B C show ?thesis by (intro conjI)
qed

theorem attachment_parent_agrees_witness:
  "has_ddash ''-001--003'' \<and>
   range_parent_tables ''-001--003'' {''-0'', ''-001''} = compute_broader_tables ''-001--003'' {''-0'', ''-001''} \<and>
   [] \<notin> {''026'', ''026.0001''} \<and> has_dash ''026.0001-026.0005'' \<and>
   split_range ''026.0001-026.0005'' = Some (''026.0001'', ''026.0005'') \<and>
   length (filter (\<lambda>x. x = CHR ''.'') ''026.0001'') = 1 \<and>
   split1_head CHR ''.'' ''026.0001'' \<in> {''026'', ''026.0001''} \<and>
   range_parent ''026.0001-026.0005'' {''026'', ''026.0001''} = Some ''026'' \<and>
   compute_broader ''026.0001-026.0005'' {''026'', ''026.0001''} = Some ''026'' \<and>
   split_range ''026.0001.5-026.0001.9'' = Some (''026.0001.5'', ''026.0001.9'') \<and>
   has_dot ''026.0001.5'' \<and>
   2 \<le> length (filter (\<lambda>x. x = CHR ''.'') ''026.0001.5'') \<and>
   split1_head CHR ''.'' ''026.0001.5'' = ''026'' \<and>
   fst (rsplit1 CHR ''.'' ''026.0001.5'') = ''026.0001'' \<and>
   range_parent ''026.0001.5-026.0001.9'' {''026'', ''026.0001''} = Some ''026'' \<and>
   compute_broader ''026.0001.5-026.0001.9'' {''026'', ''026.0001''} = Some ''026.0001'' \<and>
   range_parent ''026.0001.5-026.0001.9'' {''026'', ''026.0001''} \<noteq>
     compute_broader ''026.0001.5-026.0001.9'' {''026'', ''026.0001''}"
proof -
  let ?S = "{''026'', ''026.0001''}"
  have h1: "has_ddash ''-001--003''" by code_simp
  have h2: "[] \<notin> ?S" "has_dash ''026.0001-026.0005''"
    "split_range ''026.0001-026.0005'' = Some (''026.0001'', ''026.0005'')"
    "length (filter (\<lambda>x. x = CHR ''.'') ''026.0001'') = 1"
    "split1_head CHR ''.'' ''026.0001'' \<in> ?S"
    by code_simp+
  have v: "range_parent ''026.0001-026.0005'' ?S = Some ''026''"
    by code_simp
  note r1 = attachment_parent_agrees[of "''-001--003''" "{''-0'', ''-001''}" ?S
      "''026.0001-026.0005''" "''026.0001''" "''026.0005''"]
  from r1[THEN conjunct1, rule_format, OF h1]
  have 1: "range_parent_tables ''-001--003'' {''-0'', ''-001''} =
           compute_broader_tables ''-001--003'' {''-0'', ''-001''}" .
  have hB: "[] \<notin> ?S \<and> has_dash ''026.0001-026.0005'' \<and>
    (case split_range ''026.0001-026.0005'' of
       None \<Rightarrow> True
     | Some (left, right) \<Rightarrow>
         \<not> has_dot left \<or>
         (length (filter (\<lambda>x. x = CHR ''.'') left) = 1 \<and>
          (split1_head CHR ''.'' left \<in> ?S \<or> left \<notin> ?S)))"
    using h2 by simp
  from r1[THEN conjunct2, THEN conjunct1, rule_format, OF hB] v
  have 2: "compute_broader ''026.0001-026.0005'' ?S = Some ''026''" by simp
  have g: "split_range ''026.0001.5-026.0001.9'' = Some (''026.0001.5'', ''026.0001.9'')"
    "has_dot ''026.0001.5''"
    "2 \<le> length (filter (\<lambda>x. x = CHR ''.'') ''026.0001.5'')"
    "split1_head CHR ''.'' ''026.0001.5'' = ''026''"
    "fst (rsplit1 CHR ''.'' ''026.0001.5'') = ''026.0001''"
    by code_simp+
  note r2 = attachment_parent_agrees[of "''-001--003''" "{''-0'', ''-001''}" ?S
      "''026.0001.5-026.0001.9''" "''026.0001.5''" "''026.0001.9''"]
  have hC: "split_range ''026.0001.5-026.0001.9'' = Some (''026.0001.5'', ''026.0001.9'') \<and>
            has_dot ''026.0001.5''" using g by simp
  note c = r2[THEN conjunct2, THEN conjunct2, rule_format, OF hC]
  have t: "fst (rsplit1 CHR ''.'' ''026.0001.5'') \<in> ?S" using g(5) by simp
  from c[THEN conjunct1] g(4)
  have 3: "range_parent ''026.0001.5-026.0001.9'' ?S = Some ''026''" by simp
  from c[THEN conjunct2, THEN conjunct1, rule_format, OF t] g(5)
  have 4: "compute_broader ''026.0001.5-026.0001.9'' ?S = Some ''026.0001''" by simp
  have hD: "2 \<le> length (filter (\<lambda>x. x = CHR ''.'') ''026.0001.5'') \<and>
            fst (rsplit1 CHR ''.'' ''026.0001.5'') \<in> ?S" using g(3) t by (rule conjI)
  from c[THEN conjunct2, THEN conjunct2, rule_format, OF hD]
  have 5: "range_parent ''026.0001.5-026.0001.9'' ?S \<noteq>
           compute_broader ''026.0001.5-026.0001.9'' ?S" .
  from h1 1 h2 v 2 g 3 4 5 show ?thesis by (intro conjI)
qed

theorem attachment_parent_differs_counterexample:
  "has_dash ''026.0001.5-026.0001.9'' \<and>
   range_parent ''026.0001.5-026.0001.9'' {''026'', ''026.0001''} = Some ''026'' \<and>
   compute_broader ''026.0001.5-026.0001.9'' {''026'', ''026.0001''} = Some ''026.0001''"
  by code_simp

text \<open>
  C3. For a range code with a dotted left bound whose truncation is not a point code of
  the index, the specification and the docstring of the script give a null parent, the
  left bound itself being the fallback of integer ranges only. \<open>compute_broader\<close> falls
  through to the test of the left bound and returns it when it is a point code: here the
  index holds 026.0001 and 026.0002 but not 026, and the parent of 026.0001-026.0005 is
  026.0001.
\<close>

theorem range_broader_falls_back_to_dotted_left:
  "split_range ''026.0001-026.0005'' = Some (''026.0001'', ''026.0005'') \<and>
   has_dot ''026.0001'' \<and>
   fst (rsplit1 CHR ''.'' ''026.0001'') \<notin> {''026.0001'', ''026.0002''} \<and>
   compute_broader ''026.0001-026.0005'' {''026.0001'', ''026.0002''} = Some ''026.0001''"
  by code_simp


subsection \<open>Parents of point codes\<close>

lemma compute_broader_simple_prefix:
  assumes "\<not> has_dash c" "compute_broader c S = Some p"
  shows "startswith c (p @ ''.'') \<and> p \<in> S"
proof -
  let ?parts = "py_split ''.'' c"
  from assms have b: "broader_loop ?parts S (length ?parts - 1) = Some p"
    by (auto simp: compute_broader_def Let_def split: if_splits)
  from broader_loop_Some[OF b] obtain k where
    k: "0 < k" "k \<le> length ?parts - 1" "p = py_join ''.'' (take k ?parts)" "p \<in> S" by blast
  then have "k < length ?parts" by simp
  from py_join_take_drop[OF k(1) this, of "''.''"]
  have "c = p @ ''.'' @ py_join ''.'' (drop k ?parts)"
    using k(3) by (simp add: py_join_py_split)
  then have "take (length (p @ ''.'')) c = p @ ''.''"
    by (metis append.assoc append_eq_conv_conj)
  with k(4) show ?thesis by (simp add: startswith_def)
qed

lemma startswith_longer: "startswith c (p @ [x]) \<Longrightarrow> length p < length c \<and> p = take (length p) c"
proof -
  assume "startswith c (p @ [x])"
  then have e: "take (Suc (length p)) c = p @ [x]" by (simp add: startswith_def)
  then have "length (take (Suc (length p)) c) = Suc (length p)" by simp
  then have l: "length p < length c" by (simp add: min_def split: if_splits)
  from e have "take (length p) (take (Suc (length p)) c) = p" by simp
  then have "take (length p) c = p" by (simp add: min_def)
  with l show ?thesis by simp
qed

lemma compute_broader_tables_simple:
  assumes "\<not> has_ddash c"
  shows "compute_broader_tables c S = prefix_loop c S (length c - 1)"
proof (cases "length c \<le> 1")
  case True
  then have "length c - 1 = 0" by simp
  with True assms show ?thesis by (simp add: compute_broader_tables_def)
next
  case False
  with assms show ?thesis by (simp add: compute_broader_tables_def)
qed

text \<open>
  C7. In either dialect the parent of a point code is a proper truncation of the code: in
  Dialect A the code starts with the parent followed by a dot, in Dialect B the parent is
  a prefix that is not empty; in both the parent is strictly shorter than the code,
  differs from it, and is a point code of the index.
\<close>

theorem broader_strictly_shorter:
  "(\<not> has_dash c \<and> compute_broader c S = Some p \<longrightarrow>
      startswith c (p @ ''.'') \<and> length p < length c \<and> p \<noteq> c \<and> p \<in> S) \<and>
   (\<not> has_ddash t \<and> compute_broader_tables t T = Some q \<longrightarrow>
      startswith t q \<and> q \<noteq> [] \<and> length q < length t \<and> q \<noteq> t \<and> q \<in> T)"
proof -
  have A: "startswith c (p @ ''.'') \<and> length p < length c \<and> p \<noteq> c \<and> p \<in> S"
    if a: "\<not> has_dash c \<and> compute_broader c S = Some p"
  proof -
    from a have s: "startswith c (p @ ''.'') \<and> p \<in> S"
      using compute_broader_simple_prefix[of c S p] by blast
    then have "length p < length c" using startswith_longer[of c p "CHR ''.''"] by simp
    with s show ?thesis by auto
  qed
  have B: "startswith t q \<and> q \<noteq> [] \<and> length q < length t \<and> q \<noteq> t \<and> q \<in> T"
    if a: "\<not> has_ddash t \<and> compute_broader_tables t T = Some q"
  proof -
    from a have "prefix_loop t T (length t - 1) = Some q"
      using compute_broader_tables_simple[of t T] by metis
    from prefix_loop_Some[OF this] obtain k where
      k: "0 < k" "k \<le> length t - 1" "q = take k t" "q \<in> T" by blast
    then have "length q = k" "k < length t" by auto
    with k show ?thesis by (auto simp: startswith_def)
  qed
  from A B show ?thesis by blast
qed

theorem broader_strictly_shorter_witness:
  "\<not> has_dash ''600.1.2'' \<and> compute_broader ''600.1.2'' {''600'', ''600.1''} = Some ''600.1'' \<and>
   startswith ''600.1.2'' (''600.1'' @ ''.'') \<and> length ''600.1'' < length ''600.1.2'' \<and>
   ''600.1'' \<noteq> ''600.1.2'' \<and>
   \<not> has_ddash ''-092'' \<and> compute_broader_tables ''-092'' {''-09'', ''-0''} = Some ''-09'' \<and>
   startswith ''-092'' ''-09'' \<and> length ''-09'' < length ''-092'' \<and> ''-09'' \<noteq> ''-092''"
proof -
  have h1: "\<not> has_dash ''600.1.2'' \<and> compute_broader ''600.1.2'' {''600'', ''600.1''} = Some ''600.1''"
    by code_simp
  have h2: "\<not> has_ddash ''-092'' \<and> compute_broader_tables ''-092'' {''-09'', ''-0''} = Some ''-09''"
    by code_simp
  from broader_strictly_shorter[of "''600.1.2''" "{''600'', ''600.1''}" "''600.1''"
      "''-092''" "{''-09'', ''-0''}" "''-09''"] h1 h2
  show ?thesis by blast
qed

text \<open>
  C4, as amended. The parent of a Dialect B point code is its longest proper prefix that
  is not empty and is a point code of the index, and null when there is none: the search
  goes down to the prefix of length 1.
\<close>

theorem broader_tables_longest_prefix:
  assumes "\<not> has_ddash c"
  shows "(compute_broader_tables c S = Some p \<longleftrightarrow>
            (\<exists>k. 0 < k \<and> k < length c \<and> p = take k c \<and> p \<in> S \<and>
                 (\<forall>j. k < j \<and> j < length c \<longrightarrow> take j c \<notin> S))) \<and>
         (compute_broader_tables c S = None \<longleftrightarrow>
            (\<forall>k. 0 < k \<and> k < length c \<longrightarrow> take k c \<notin> S))"
proof -
  have e: "compute_broader_tables c S = prefix_loop c S (length c - 1)"
    using assms by (rule compute_broader_tables_simple)
  have le: "k \<le> length c - 1 \<longleftrightarrow> k < length c" if "0 < k" for k
    using that by auto
  have n: "compute_broader_tables c S = None \<longleftrightarrow>
            (\<forall>k. 0 < k \<and> k < length c \<longrightarrow> take k c \<notin> S)"
    unfolding e prefix_loop_None using le by auto
  have s: "compute_broader_tables c S = Some p \<longleftrightarrow>
            (\<exists>k. 0 < k \<and> k < length c \<and> p = take k c \<and> p \<in> S \<and>
                 (\<forall>j. k < j \<and> j < length c \<longrightarrow> take j c \<notin> S))" (is "?L \<longleftrightarrow> ?R")
  proof
    assume ?L
    then have "prefix_loop c S (length c - 1) = Some p" by (simp add: e)
    from prefix_loop_Some[OF this] obtain k where
      k: "0 < k" "k \<le> length c - 1" "p = take k c" "p \<in> S"
         "\<forall>j. k < j \<and> j \<le> length c - 1 \<longrightarrow> take j c \<notin> S" by blast
    have "\<forall>j. k < j \<and> j < length c \<longrightarrow> take j c \<notin> S"
      using k(5) by auto
    with k show ?R by (intro exI[of _ k]) auto
  next
    assume ?R
    then obtain k where
      k: "0 < k" "k < length c" "p = take k c" "p \<in> S"
         "\<forall>j. k < j \<and> j < length c \<longrightarrow> take j c \<notin> S" by blast
    from k have "compute_broader_tables c S \<noteq> None" using n by auto
    then obtain q where q: "compute_broader_tables c S = Some q" by auto
    then have "prefix_loop c S (length c - 1) = Some q" by (simp add: e)
    from prefix_loop_Some[OF this] obtain m where
      m: "0 < m" "m \<le> length c - 1" "q = take m c" "q \<in> S"
         "\<forall>j. m < j \<and> j \<le> length c - 1 \<longrightarrow> take j c \<notin> S" by blast
    have "\<not> m < k" using m(5) k(2,3,4) by auto
    moreover have "\<not> k < m" using k(5) m(2,3,4) by auto
    ultimately have "m = k" by simp
    with q m(3) k(3) show ?L by simp
  qed
  from s n show ?thesis by simp
qed

theorem broader_tables_longest_prefix_witness:
  "\<not> has_ddash ''-0921'' \<and>
   compute_broader_tables ''-0921'' {''-'', ''-09'', ''-0921''} = Some ''-09'' \<and>
   compute_broader_tables ''-0921'' {''-0921'', ''-1''} = None"
proof -
  have h: "\<not> has_ddash ''-0921''" by code_simp
  have a: "0 < (3::nat) \<and> 3 < length ''-0921'' \<and> ''-09'' = take 3 ''-0921'' \<and>
           ''-09'' \<in> {''-'', ''-09'', ''-0921''} \<and>
           (\<forall>j. 3 < j \<and> j < length ''-0921'' \<longrightarrow> take j ''-0921'' \<notin> {''-'', ''-09'', ''-0921''})"
  proof (intro conjI allI impI)
    fix j :: nat assume "3 < j \<and> j < length ''-0921''"
    then have "j = 4" by auto
    then show "take j ''-0921'' \<notin> {''-'', ''-09'', ''-0921''}" by auto
  qed simp_all
  have b: "\<forall>k. 0 < k \<and> k < length ''-0921'' \<longrightarrow> take k ''-0921'' \<notin> {''-0921'', ''-1''}"
  proof (intro allI impI)
    fix k :: nat assume "0 < k \<and> k < length ''-0921''"
    then have "k = 1 \<or> k = 2 \<or> k = 3 \<or> k = 4" by auto
    then show "take k ''-0921'' \<notin> {''-0921'', ''-1''}" by auto
  qed
  from broader_tables_longest_prefix[OF h, of "{''-'', ''-09'', ''-0921''}" "''-09''"] a
  have 1: "compute_broader_tables ''-0921'' {''-'', ''-09'', ''-0921''} = Some ''-09''" by blast
  from broader_tables_longest_prefix[OF h, of "{''-0921'', ''-1''}"] b
  have 2: "compute_broader_tables ''-0921'' {''-0921'', ''-1''} = None" by blast
  from h 1 2 show ?thesis by simp
qed

theorem broader_tables_one_char_parent_counterexample:
  "\<not> has_ddash ''-09'' \<and> ''-0'' \<notin> {''-'', ''-09''} \<and>
   compute_broader_tables ''-09'' {''-'', ''-09''} = Some ''-'' \<and> length ''-'' < 2"
  by code_simp

section \<open>The loops of the files\<close>

subsection \<open>Loops that may fail\<close>

lemma foldM_append:
  "foldM f (xs @ ys) s = (case foldM f xs s of Inl e \<Rightarrow> Inl e | Inr s' \<Rightarrow> foldM f ys s')"
  by (induction xs arbitrary: s) (auto split: sum.splits)

lemma foldM_cong:
  "(\<And>x s. x \<in> set xs \<Longrightarrow> f x s = g x s) \<Longrightarrow> foldM f xs s = foldM g xs s"
  by (induction xs arbitrary: s) (auto split: sum.splits)

lemma foldM_map: "foldM f (map h xs) s = foldM (\<lambda>x. f (h x)) xs s"
  by (induction xs arbitrary: s) (auto split: sum.splits)

lemma foldM_nested:
  "foldM (\<lambda>(c, ps) s. foldM (f c) ps s) kv s =
   foldM (\<lambda>(c, p) s. f c p s) (concat (map (\<lambda>(c, ps). map (Pair c) ps) kv)) s"
proof (induction kv arbitrary: s)
  case Nil
  then show ?case by simp
next
  case (Cons a kv)
  obtain c ps where a: "a = (c, ps)" by (cases a)
  have "foldM (\<lambda>(c, p) s. f c p s) (map (Pair c) ps) s = foldM (f c) ps s"
    by (simp add: foldM_map)
  with Cons a show ?case
    by (simp add: foldM_append split: sum.splits)
qed

subsection \<open>Dictionaries of sets\<close>

lemma map_fst_map_entry: "map fst (AList.map_entry k f m) = map fst m"
  by (induction m) auto

lemma grows_id: "map fst m = ks \<Longrightarrow> grows ks (\<lambda>k. {}) m (Inr m)"
  by (simp add: grows_def option.map_ident)

lemma grows_dict_add:
  assumes "map fst m = ks" "k \<in> set ks"
  shows "grows ks (\<lambda>x. if x = k then {v} else {}) m (dict_add m k v)"
proof -
  from assms obtain s where s: "map_of m k = Some s"
    by (metis image_set map_of_eq_None_iff not_Some_eq)
  have "map_of (AList.map_entry k (insert v) m) x =
        map_option (\<lambda>s. s \<union> (if x = k then {v} else {})) (map_of m x)" for x
    by (cases "map_of m x") (auto simp: map_of_map_entry s)
  with s assms show ?thesis
    by (simp add: grows_def dict_add_def map_fst_map_entry)
qed

lemma grows_dict_union:
  assumes "map fst m = ks" "k \<in> set ks"
  shows "grows ks (\<lambda>x. if x = k then vs else {}) m (dict_union m k vs)"
proof -
  from assms obtain s where s: "map_of m k = Some s"
    by (metis image_set map_of_eq_None_iff not_Some_eq)
  have "map_of (AList.map_entry k (\<lambda>s. s \<union> vs) m) x =
        map_option (\<lambda>s. s \<union> (if x = k then vs else {})) (map_of m x)" for x
    by (cases "map_of m x") (auto simp: map_of_map_entry s)
  with s assms show ?thesis
    by (simp add: grows_def dict_union_def map_fst_map_entry)
qed

lemma grows_foldM:
  assumes "\<And>x m. x \<in> set xs \<Longrightarrow> map fst m = ks \<Longrightarrow> grows ks (G x) m (f x m)"
    and "map fst m = ks"
  shows "grows ks (\<lambda>k. \<Union>x\<in>set xs. G x k) m (foldM f xs m)"
  using assms
proof (induction xs arbitrary: m)
  case Nil
  then show ?case by (simp add: grows_def option.map_ident)
next
  case (Cons x xs)
  from Cons.prems(1)[of x m] Cons.prems(2) obtain m1 where
    m1: "f x m = Inr m1" "map fst m1 = ks"
        "\<forall>k. map_of m1 k = map_option (\<lambda>s. s \<union> G x k) (map_of m k)"
    by (auto simp: grows_def)
  have "grows ks (\<lambda>k. \<Union>x\<in>set xs. G x k) m1 (foldM f xs m1)"
    using Cons.prems(1) m1(2) by (intro Cons.IH) auto
  then obtain m2 where
    m2: "foldM f xs m1 = Inr m2" "map fst m2 = ks"
        "\<forall>k. map_of m2 k = map_option (\<lambda>s. s \<union> (\<Union>x\<in>set xs. G x k)) (map_of m1 k)"
    by (auto simp: grows_def)
  have "map_of m2 k = map_option (\<lambda>s. s \<union> (\<Union>y\<in>set (x # xs). G y k)) (map_of m k)" for k
    using m1(3) m2(3) by (cases "map_of m k") (auto simp: option.map_comp)
  with m1(1) m2(1,2) show ?case by (simp add: grows_def)
qed


lemma grows_cong: "(\<And>k. G k = G' k) \<Longrightarrow> grows ks G m r \<Longrightarrow> grows ks G' m r"
proof -
  assume "\<And>k. G k = G' k"
  then have "G = G'" by (simp add: fun_eq_iff)
  then show "grows ks G m r \<Longrightarrow> grows ks G' m r" by simp
qed

lemma cond_add_grows:
  assumes "map fst m = ks" "b \<Longrightarrow> k \<in> set ks"
  shows "grows ks (\<lambda>x. if b \<and> x = k then {v} else {}) m (if b then dict_add m k v else Inr m)"
proof (cases b)
  case True
  with assms have "grows ks (\<lambda>x. if x = k then {v} else {}) m (dict_add m k v)"
    by (intro grows_dict_add) auto
  with True show ?thesis by simp
next
  case False
  with grows_id[OF assms(1)] show ?thesis by simp
qed

lemma grows_then:
  assumes "grows ks G m (Inr m1)" "grows ks G' m1 r"
  shows "grows ks (\<lambda>k. G k \<union> G' k) m r"
proof -
  from assms obtain m2 where
    m1: "\<forall>k. map_of m1 k = map_option (\<lambda>s. s \<union> G k) (map_of m k)" and
    m2: "r = Inr m2" "map fst m2 = ks"
        "\<forall>k. map_of m2 k = map_option (\<lambda>s. s \<union> G' k) (map_of m1 k)"
    by (auto simp: grows_def)
  have "map_of m2 k = map_option (\<lambda>s. s \<union> (G k \<union> G' k)) (map_of m k)" for k
    using m1 m2(3) by (cases "map_of m k") (auto simp: Un_assoc)
  with m2(1,2) show ?thesis by (simp add: grows_def)
qed

lemma grows_keys: "grows ks G m r \<Longrightarrow> \<exists>m'. r = Inr m' \<and> map fst m' = ks"
  by (auto simp: grows_def)

lemma children_loop_grows:
  assumes "map fst m = ks" "set cs \<subseteq> set ks"
  shows "grows ks (\<lambda>k. if k \<in> set cs \<and> \<not> R k then {d \<in> set ds. P k d} else {}) m
     (foldM (\<lambda>c ch. if R c then Inr ch
                     else foldM (\<lambda>d ch. if P c d then dict_add ch c d else Inr ch) ds ch)
        cs m)"
proof -
  let ?Gi = "\<lambda>c d k. if P c d \<and> k = c then {d} else ({}::string set)"
  let ?Go = "\<lambda>c k. if \<not> R c \<and> k = c then {d \<in> set ds. P c d} else {}"
  have inner: "grows ks (?Go c) m'
      (foldM (\<lambda>d ch. if P c d then dict_add ch c d else Inr ch) ds m')"
    if "c \<in> set cs" "\<not> R c" "map fst m' = ks" for c m'
  proof -
    have "grows ks (\<lambda>k. \<Union>d\<in>set ds. ?Gi c d k) m'
      (foldM (\<lambda>d ch. if P c d then dict_add ch c d else Inr ch) ds m')"
    proof (rule grows_foldM)
      fix d and m'' :: child_dict
      assume "map fst m'' = ks"
      with that(1) assms(2) show "grows ks (?Gi c d) m''
          (if P c d then dict_add m'' c d else Inr m'')"
        by (intro cond_add_grows) auto
    qed (rule that(3))
    moreover have "(\<Union>d\<in>set ds. ?Gi c d k) = ?Go c k" for k
      using that(2) by auto
    ultimately show ?thesis by (rule grows_cong[rotated])
  qed
  have "grows ks (\<lambda>k. \<Union>c\<in>set cs. ?Go c k) m
     (foldM (\<lambda>c ch. if R c then Inr ch
                     else foldM (\<lambda>d ch. if P c d then dict_add ch c d else Inr ch) ds ch)
        cs m)"
  proof (rule grows_foldM)
    fix c and m' :: child_dict
    assume c: "c \<in> set cs" "map fst m' = ks"
    show "grows ks (?Go c) m'
        (if R c then Inr m'
         else foldM (\<lambda>d ch. if P c d then dict_add ch c d else Inr ch) ds m')"
    proof (cases "R c")
      case True
      with grows_id[OF c(2)] show ?thesis by simp
    next
      case False
      with inner[OF c(1) False c(2)] show ?thesis by simp
    qed
  qed (rule assms(1))
  then show ?thesis by (rule grows_cong[rotated]) auto
qed

lemma UN_alist_lookup:
  assumes "distinct (map fst kv)"
  shows "(\<Union>x\<in>set kv. if k = fst x then snd x else {}) =
         (case map_of kv k of None \<Rightarrow> {} | Some vs \<Rightarrow> vs)"
proof (cases "map_of kv k")
  case None
  then have "k \<notin> fst ` set kv" by (simp add: map_of_eq_None_iff)
  then have "(if k = fst x then snd x else {}) = {}" if "x \<in> set kv" for x
    using that by auto
  then have "(\<Union>x\<in>set kv. if k = fst x then snd x else {}) = {}" by blast
  with None show ?thesis by simp
next
  case (Some vs)
  with assms have u: "\<And>x. x \<in> set kv \<Longrightarrow> fst x = k \<Longrightarrow> snd x = vs"
    by (metis map_of_is_SomeI option.inject prod.collapse)
  from Some have m: "(k, vs) \<in> set kv" by (rule map_of_SomeD)
  have 1: "(if k = fst x then snd x else {}) \<subseteq> vs" if "x \<in> set kv" for x
    using that u by simp
  from 1 have "(\<Union>x\<in>set kv. if k = fst x then snd x else {}) \<subseteq> vs" by blast
  moreover have "vs \<subseteq> (\<Union>x\<in>set kv. if k = fst x then snd x else {})"
    using UN_upper[OF m, of "\<lambda>x. if k = fst x then snd x else {}"] by simp
  ultimately have "(\<Union>x\<in>set kv. if k = fst x then snd x else {}) = vs" by (rule equalityI)
  with Some show ?thesis by simp
qed

lemma union_loop_grows:
  assumes "map fst m = ks" "fst ` set kv \<subseteq> set ks" "distinct (map fst kv)"
  shows "grows ks (\<lambda>k. case map_of kv k of None \<Rightarrow> {} | Some vs \<Rightarrow> vs) m
           (foldM (\<lambda>(c, kids) m. dict_union m c kids) kv m)"
proof -
  let ?G = "\<lambda>x k. if k = fst x then snd x else ({}::string set)"
  have "grows ks (\<lambda>k. \<Union>x\<in>set kv. ?G x k) m (foldM (\<lambda>(c, kids) m. dict_union m c kids) kv m)"
  proof (rule grows_foldM)
    fix x and m' :: child_dict
    assume "x \<in> set kv" "map fst m' = ks"
    with assms(2) have "grows ks (?G x) m' (dict_union m' (fst x) (snd x))"
      by (intro grows_dict_union) auto
    then show "grows ks (?G x) m' ((\<lambda>(c, kids) m. dict_union m c kids) x m')"
      by (simp add: case_prod_beta)
  qed (rule assms(1))
  then show ?thesis
    by (rule grows_cong[rotated]) (rule UN_alist_lookup[OF assms(3)])
qed

lemma attach_step_grows:
  assumes "map fst m = ks" "\<And>p. par = Some p \<Longrightarrow> p \<in> set ks"
  shows "grows ks (\<lambda>k. if par = Some k \<and> k \<noteq> [] then {rc} else {}) m
           (case par of None \<Rightarrow> Inr m
            | Some parent \<Rightarrow> if parent \<noteq> [] then dict_add m parent rc else Inr m)"
proof (cases "\<exists>p. par = Some p \<and> p \<noteq> []")
  case True
  then obtain p where p: "par = Some p" "p \<noteq> []" by blast
  with assms have "grows ks (\<lambda>x. if x = p then {rc} else {}) m (dict_add m p rc)"
    by (intro grows_dict_add) auto
  moreover have "(if x = p then {rc} else {}) = (if par = Some x \<and> x \<noteq> [] then {rc} else {})" for x
    using p by auto
  ultimately have "grows ks (\<lambda>k. if par = Some k \<and> k \<noteq> [] then {rc} else {}) m (dict_add m p rc)"
    by (rule grows_cong[rotated])
  with p show ?thesis by simp
next
  case False
  from assms(1) have "grows ks (\<lambda>k. {}) m (Inr m)" by (rule grows_id)
  moreover have "{} = (if par = Some x \<and> x \<noteq> [] then {rc} else {})" for x
    using False by auto
  ultimately have "grows ks (\<lambda>k. if par = Some k \<and> k \<noteq> [] then {rc} else {}) m (Inr m)"
    by (rule grows_cong[rotated])
  with False show ?thesis by (cases par) auto
qed

lemma attach_loop_grows:
  assumes "map fst m = ks" "\<And>rc p. rc \<in> set rcs \<Longrightarrow> par rc = Some p \<Longrightarrow> p \<in> set ks"
  shows "grows ks (\<lambda>k. {rc \<in> set rcs. par rc = Some k \<and> k \<noteq> []}) m
           (foldM (\<lambda>rc m. case par rc of None \<Rightarrow> Inr m
                          | Some parent \<Rightarrow> if parent \<noteq> [] then dict_add m parent rc else Inr m)
              rcs m)"
proof -
  have "grows ks (\<lambda>k. \<Union>rc\<in>set rcs. if par rc = Some k \<and> k \<noteq> [] then {rc} else {}) m
           (foldM (\<lambda>rc m. case par rc of None \<Rightarrow> Inr m
                          | Some parent \<Rightarrow> if parent \<noteq> [] then dict_add m parent rc else Inr m)
              rcs m)"
  proof (rule grows_foldM)
    fix rc and m' :: child_dict
    assume "rc \<in> set rcs" "map fst m' = ks"
    then show "grows ks (\<lambda>k. if par rc = Some k \<and> k \<noteq> [] then {rc} else {}) m'
        (case par rc of None \<Rightarrow> Inr m'
         | Some parent \<Rightarrow> if parent \<noteq> [] then dict_add m' parent rc else Inr m')"
      using assms(2) by (intro attach_step_grows) auto
  qed (rule assms(1))
  then show ?thesis by (rule grows_cong[rotated]) auto
qed

lemma range_children_fold:
  "map_of (fold (\<lambda>rc m. AList.update rc (E rc) m) rcs m0) k =
     (if k \<in> set rcs then Some (E k) else map_of m0 k)"
  by (induction rcs arbitrary: m0) (auto simp: update_conv')

lemma range_children_keys:
  "fst ` set (fold (\<lambda>rc m. AList.update rc (E rc) m) rcs m0) = set rcs \<union> fst ` set m0"
  by (induction rcs arbitrary: m0) (auto simp: dom_update)

lemma range_children_distinct:
  "distinct (map fst m0) \<Longrightarrow> distinct (map fst (fold (\<lambda>rc m. AList.update rc (E rc) m) rcs m0))"
  by (induction rcs arbitrary: m0) (auto simp: distinct_update)

lemma init_child_map: "map_of (map (\<lambda>c. (c, {})) codes) k = (if k \<in> set codes then Some {} else None)"
  by (induction codes) auto


lemma union_attach_loop_grows:
  assumes "map fst m = ks" "fst ` set kv \<subseteq> set ks" "distinct (map fst kv)"
    "\<And>rc p. rc \<in> fst ` set kv \<Longrightarrow> par rc = Some p \<Longrightarrow> p \<in> set ks"
  shows "grows ks (\<lambda>k. (case map_of kv k of None \<Rightarrow> {} | Some vs \<Rightarrow> vs) \<union>
                        {rc \<in> fst ` set kv. par rc = Some k \<and> k \<noteq> []}) m
     (foldM (\<lambda>(rc, kids) m.
               case dict_union m rc kids of
                 Inl f \<Rightarrow> Inl f
               | Inr m' \<Rightarrow>
                   (case par rc of
                      None \<Rightarrow> Inr m'
                    | Some parent \<Rightarrow> if parent \<noteq> [] then dict_add m' parent rc else Inr m'))
        kv m)"
proof -
  let ?G1 = "\<lambda>x k. if k = fst x then snd x else ({}::string set)"
  let ?G2 = "\<lambda>x k. if par (fst x) = Some k \<and> k \<noteq> [] then {fst x} else ({}::string set)"
  let ?f = "\<lambda>(rc, kids) m.
               case dict_union m rc kids of
                 Inl f \<Rightarrow> Inl f
               | Inr m' \<Rightarrow>
                   (case par rc of
                      None \<Rightarrow> Inr m'
                    | Some parent \<Rightarrow> if parent \<noteq> [] then dict_add m' parent rc else Inr m')"
  have "grows ks (\<lambda>k. \<Union>x\<in>set kv. ?G1 x k \<union> ?G2 x k) m (foldM ?f kv m)"
  proof (rule grows_foldM)
    fix x and m' :: child_dict
    assume x: "x \<in> set kv" "map fst m' = ks"
    with assms(2) have g1: "grows ks (?G1 x) m' (dict_union m' (fst x) (snd x))"
      by (intro grows_dict_union) auto
    then obtain m1 where m1: "dict_union m' (fst x) (snd x) = Inr m1" "map fst m1 = ks"
      by (auto simp: grows_def)
    have g2: "grows ks (?G2 x) m1
        (case par (fst x) of None \<Rightarrow> Inr m1
         | Some parent \<Rightarrow> if parent \<noteq> [] then dict_add m1 parent (fst x) else Inr m1)"
      using m1(2) x(1) assms(4) by (intro attach_step_grows) auto
    from g1 m1(1) have "grows ks (?G1 x) m' (Inr m1)" by simp
    from grows_then[OF this g2] m1(1)
    show "grows ks (\<lambda>k. ?G1 x k \<union> ?G2 x k) m' (?f x m')"
      by (simp add: case_prod_beta)
  qed (rule assms(1))
  moreover have "(\<Union>x\<in>set kv. ?G1 x k \<union> ?G2 x k) =
      (case map_of kv k of None \<Rightarrow> {} | Some vs \<Rightarrow> vs) \<union>
      {rc \<in> fst ` set kv. par rc = Some k \<and> k \<noteq> []}" for k
  proof -
    have a: "(\<Union>x\<in>set kv. ?G1 x k \<union> ?G2 x k) = (\<Union>x\<in>set kv. ?G1 x k) \<union> (\<Union>x\<in>set kv. ?G2 x k)"
      by blast
    have b: "(\<Union>x\<in>set kv. ?G2 x k) = {rc \<in> fst ` set kv. par rc = Some k \<and> k \<noteq> []}"
      by (auto split: if_splits)
    have c: "(\<Union>x\<in>set kv. ?G1 x k) = (case map_of kv k of None \<Rightarrow> {} | Some vs \<Rightarrow> vs)"
      by (rule UN_alist_lookup[OF assms(3)])
    show ?thesis by (simp only: a b c)
  qed
  ultimately show ?thesis by (rule grows_cong[rotated])
qed

lemma range_parent_in: "range_parent rc S = Some p \<Longrightarrow> p \<in> S"
  by (auto simp: range_parent_def Let_def split: if_splits option.splits)

lemma range_parent_tables_in: "range_parent_tables rc S = Some p \<Longrightarrow> p \<in> S"
  by (auto simp: range_parent_tables_def split: if_splits option.splits dest: prefix_loop_Some)

lemma build_child_map_char:
  assumes "distinct codes"
  shows "\<exists>m. build_child_map codes = Inr m \<and> map fst m = codes \<and>
             (\<forall>k. map_of m k = (if k \<in> set codes then Some (children_of (set codes) k) else None))"
proof -
  let ?S = "{c \<in> set codes. \<not> has_dash c}"
  let ?R = "filter has_dash codes"
  let ?init = "map (\<lambda>c. (c, {}::string set)) codes"
  let ?rch = "fold (\<lambda>rc m. AList.update rc (expand_range_children rc ?S) m) ?R []"
  have i: "map fst ?init = codes" by (simp add: comp_def)
  from children_loop_grows[OF i subset_refl, of has_dash codes immediate_child]
  obtain sm where sm: "immediate_children_simple codes = Inr sm" "map fst sm = codes"
    "\<forall>k. map_of sm k = map_option (\<lambda>s. s \<union> (if k \<in> set codes \<and> \<not> has_dash k
              then {d \<in> set codes. immediate_child k d} else {})) (map_of ?init k)"
    unfolding immediate_children_simple_def grows_def by blast
  have smv: "map_of sm k = (if k \<in> set codes
       then Some (if has_dash k then {} else {d \<in> set codes. immediate_child k d}) else None)" for k
    using sm(3) by (simp add: init_child_map)
  from sm(2) assms have dsm: "distinct (map fst sm)" "fst ` set sm \<subseteq> set codes"
    by (auto simp flip: set_map)
  from union_loop_grows[OF i dsm(2) dsm(1)]
  obtain m1 where m1: "foldM (\<lambda>(c, kids) m. dict_union m c kids) sm ?init = Inr m1"
    "map fst m1 = codes"
    "\<forall>k. map_of m1 k = map_option (\<lambda>s. s \<union> (case map_of sm k of None \<Rightarrow> {} | Some vs \<Rightarrow> vs))
             (map_of ?init k)"
    unfolding grows_def by blast
  have rk: "fst ` set ?rch \<subseteq> set codes" by (auto simp: range_children_keys)
  have rd: "distinct (map fst ?rch)" by (rule range_children_distinct) simp
  from union_loop_grows[OF m1(2) rk rd]
  obtain m2 where m2: "foldM (\<lambda>(rc, kids) m. dict_union m rc kids) ?rch m1 = Inr m2"
    "map fst m2 = codes"
    "\<forall>k. map_of m2 k = map_option (\<lambda>s. s \<union> (case map_of ?rch k of None \<Rightarrow> {} | Some vs \<Rightarrow> vs))
             (map_of m1 k)"
    unfolding grows_def by blast
  have par: "p \<in> set codes" if "range_parent rc ?S = Some p" for rc p
    using range_parent_in[OF that] by simp
  from attach_loop_grows[OF m2(2), of ?R "\<lambda>rc. range_parent rc ?S"] par
  obtain m3 where m3: "foldM (\<lambda>rc m. case range_parent rc ?S of None \<Rightarrow> Inr m
                          | Some parent \<Rightarrow> if parent \<noteq> [] then dict_add m parent rc else Inr m)
              ?R m2 = Inr m3"
    "map fst m3 = codes"
    "\<forall>k. map_of m3 k = map_option (\<lambda>s. s \<union> {rc \<in> set ?R. range_parent rc ?S = Some k \<and> k \<noteq> []})
             (map_of m2 k)"
    unfolding grows_def by blast
  have e: "build_child_map codes = Inr m3"
    unfolding build_child_map_def Let_def by (simp add: sm(1) m1(1) m2(1) m3(1))
  have "map_of m3 k = (if k \<in> set codes then Some (children_of (set codes) k) else None)" for k
  proof (cases "k \<in> set codes")
    case False
    then show ?thesis using m3(3) m2(3) m1(3) by (simp add: init_child_map)
  next
    case True
    have "map_of m3 k = Some ((if has_dash k then {} else {d \<in> set codes. immediate_child k d}) \<union>
        (if has_dash k then expand_range_children k ?S else {}) \<union>
        {rc \<in> set ?R. range_parent rc ?S = Some k \<and> k \<noteq> []})"
      using True m3(3) m2(3) m1(3) by (simp add: init_child_map smv range_children_fold)
    also have "\<dots> = Some (children_of (set codes) k)"
      by (auto simp: children_of_def Let_def)
    finally show ?thesis using True by simp
  qed
  with e m3(2) show ?thesis by blast
qed

lemma build_child_map_tables_char:
  assumes "distinct codes"
  shows "\<exists>m. build_child_map_tables codes = Inr m \<and> map fst m = codes \<and>
             (\<forall>k. map_of m k =
                (if k \<in> set codes then Some (children_of_tables (set codes) k) else None))"
proof -
  let ?S = "{c \<in> set codes. \<not> has_ddash c}"
  let ?R = "filter has_ddash codes"
  let ?init = "map (\<lambda>c. (c, {}::string set)) codes"
  let ?rch = "fold (\<lambda>rc m. AList.update rc (expand_range_children_tables rc ?S) m) ?R []"
  have i: "map fst ?init = codes" by (simp add: comp_def)
  from children_loop_grows[OF i subset_refl, of has_ddash codes immediate_child_tables]
  obtain sm where sm: "immediate_children_simple_tables codes = Inr sm" "map fst sm = codes"
    "\<forall>k. map_of sm k = map_option (\<lambda>s. s \<union> (if k \<in> set codes \<and> \<not> has_ddash k
              then {d \<in> set codes. immediate_child_tables k d} else {})) (map_of ?init k)"
    unfolding immediate_children_simple_tables_def grows_def by blast
  have smv: "map_of sm k = (if k \<in> set codes
       then Some (if has_ddash k then {} else {d \<in> set codes. immediate_child_tables k d})
       else None)" for k
    using sm(3) by (simp add: init_child_map)
  from sm(2) assms have dsm: "distinct (map fst sm)" "fst ` set sm \<subseteq> set codes"
    by (auto simp flip: set_map)
  from union_loop_grows[OF i dsm(2) dsm(1)]
  obtain m1 where m1: "foldM (\<lambda>(c, kids) m. dict_union m c kids) sm ?init = Inr m1"
    "map fst m1 = codes"
    "\<forall>k. map_of m1 k = map_option (\<lambda>s. s \<union> (case map_of sm k of None \<Rightarrow> {} | Some vs \<Rightarrow> vs))
             (map_of ?init k)"
    unfolding grows_def by blast
  have rk: "fst ` set ?rch \<subseteq> set codes" by (auto simp: range_children_keys)
  have rk': "fst ` set ?rch = set ?R" by (simp add: range_children_keys)
  have rd: "distinct (map fst ?rch)" by (rule range_children_distinct) simp
  have par: "p \<in> set codes" if "range_parent_tables rc ?S = Some p" for rc p
    using range_parent_tables_in[OF that] by simp
  from union_attach_loop_grows[OF m1(2) rk rd, of "\<lambda>rc. range_parent_tables rc ?S"] par
  obtain m2 where m2: "foldM (\<lambda>(rc, kids) m.
               case dict_union m rc kids of
                 Inl f \<Rightarrow> Inl f
               | Inr m' \<Rightarrow>
                   (case range_parent_tables rc ?S of
                      None \<Rightarrow> Inr m'
                    | Some parent \<Rightarrow> if parent \<noteq> [] then dict_add m' parent rc else Inr m'))
        ?rch m1 = Inr m2"
    "map fst m2 = codes"
    "\<forall>k. map_of m2 k = map_option (\<lambda>s. s \<union> ((case map_of ?rch k of None \<Rightarrow> {} | Some vs \<Rightarrow> vs) \<union>
                        {rc \<in> fst ` set ?rch. range_parent_tables rc ?S = Some k \<and> k \<noteq> []}))
             (map_of m1 k)"
    unfolding grows_def by blast
  have e: "build_child_map_tables codes = Inr m2"
    unfolding build_child_map_tables_def Let_def by (simp add: sm(1) m1(1) m2(1))
  have "map_of m2 k = (if k \<in> set codes then Some (children_of_tables (set codes) k) else None)" for k
  proof (cases "k \<in> set codes")
    case False
    then show ?thesis using m2(3) m1(3) by (simp add: init_child_map)
  next
    case True
    have "map_of m2 k = Some ((if has_ddash k then {} else {d \<in> set codes. immediate_child_tables k d}) \<union>
        ((if has_ddash k then expand_range_children_tables k ?S else {}) \<union>
        {rc \<in> set ?R. range_parent_tables rc ?S = Some k \<and> k \<noteq> []}))"
      using True m2(3) m1(3) unfolding rk' by (simp add: init_child_map smv range_children_fold)
    also have "\<dots> = Some (children_of_tables (set codes) k)"
      by (auto simp: children_of_tables_def Let_def)
    finally show ?thesis using True by simp
  qed
  with e m2(2) show ?thesis by blast
qed

subsection \<open>The code index\<close>

lemma build_indices_index_loop: "build_indices es i cte = index_loop extractor_a es i cte"
proof (induction es arbitrary: i cte)
  case Nil
  then show ?case by simp
next
  case (Cons e es)
  show ?case
  proof (cases e)
    case (JObj d)
    show ?thesis
    proof (cases "extract_code d")
      case (Inl f)
      with JObj show ?thesis by (simp add: extractor_a_def)
    next
      case (Inr c)
      with JObj Cons show ?thesis by (simp add: extractor_a_def)
    qed
  qed (simp_all add: Cons)
qed

lemma build_indices_tables_index_loop:
  "build_indices_tables es i cte = index_loop extractor_b es i cte"
proof (induction es arbitrary: i cte)
  case Nil
  then show ?case by simp
next
  case (Cons e es)
  show ?case
  proof (cases e)
    case (JObj d)
    show ?thesis
    proof (cases "extract_code_tables d")
      case (Inl f)
      with JObj show ?thesis by (simp add: extractor_b_def)
    next
      case (Inr code)
      with JObj Cons show ?thesis
        by (cases code) (simp_all add: extractor_b_def)
    qed
  qed (simp_all add: Cons)
qed

lemma index_loop_Cons:
  "index_loop ex (e # es) i cte =
     (case stamped ex e of
        Inl f \<Rightarrow> Inl f
      | Inr e1 \<Rightarrow>
          (case index_loop ex es (Suc i)
                  (case key_of ex e of
                     None \<Rightarrow> cte
                   | Some c \<Rightarrow> AList.map_default c [i] (\<lambda>ents. ents @ [i]) cte) of
             Inl f \<Rightarrow> Inl f
           | Inr (es', idx) \<Rightarrow> Inr (e1 # es', idx)))"
  by (cases e) (auto simp: stamped_def key_of_def split: sum.splits prod.splits)

lemma index_loop_entries:
  "(\<exists>cte. index_loop ex es i cte0 = Inr (es1, cte)) \<longleftrightarrow>
   list_all2 (\<lambda>e e1. stamped ex e = Inr e1) es es1"
proof (induction es arbitrary: i cte0 es1)
  case Nil
  then show ?case by auto
next
  case (Cons e es)
  show ?case
  proof
    assume "\<exists>cte. index_loop ex (e # es) i cte0 = Inr (es1, cte)"
    then obtain cte where c: "index_loop ex (e # es) i cte0 = Inr (es1, cte)" by blast
    then obtain e1 es' where
      s: "stamped ex e = Inr e1" "es1 = e1 # es'"
      "index_loop ex es (Suc i)
                  (case key_of ex e of
                     None \<Rightarrow> cte0
                   | Some c \<Rightarrow> AList.map_default c [i] (\<lambda>ents. ents @ [i]) cte0) = Inr (es', cte)"
      by (auto simp: index_loop_Cons simp del: index_loop.simps split: sum.splits prod.splits)
    from s(3) Cons.IH have "list_all2 (\<lambda>e e1. stamped ex e = Inr e1) es es'" by blast
    with s show "list_all2 (\<lambda>e e1. stamped ex e = Inr e1) (e # es) es1" by simp
  next
    assume "list_all2 (\<lambda>e e1. stamped ex e = Inr e1) (e # es) es1"
    then obtain e1 es' where
      s: "es1 = e1 # es'" "stamped ex e = Inr e1" "list_all2 (\<lambda>e e1. stamped ex e = Inr e1) es es'"
      by (auto simp: list_all2_Cons1)
    from s(3) Cons.IH[of "Suc i" "(case key_of ex e of
                     None \<Rightarrow> cte0
                   | Some c \<Rightarrow> AList.map_default c [i] (\<lambda>ents. ents @ [i]) cte0)" es']
    obtain cte where "index_loop ex es (Suc i)
                  (case key_of ex e of
                     None \<Rightarrow> cte0
                   | Some c \<Rightarrow> AList.map_default c [i] (\<lambda>ents. ents @ [i]) cte0) = Inr (es', cte)"
      by blast
    with s show "\<exists>cte. index_loop ex (e # es) i cte0 = Inr (es1, cte)"
      by (simp add: index_loop_Cons del: index_loop.simps)
  qed
qed

lemma index_inv_step:
  assumes "index_inv ex all i cte" 
  shows "index_inv ex all (Suc i)
           (case key_of ex (all ! i) of
              None \<Rightarrow> cte
            | Some c \<Rightarrow> AList.map_default c [i] (\<lambda>ents. ents @ [i]) cte)"
proof (cases "key_of ex (all ! i)")
  case None
  from assms have d: "distinct (map fst cte)"
    and a: "\<And>k ps. map_of cte k = Some ps \<Longrightarrow>
          ps \<noteq> [] \<and> (\<forall>p\<in>set ps. p < i \<and> key_of ex (all ! p) = Some k)"
    and b: "\<And>p k. p < i \<Longrightarrow> key_of ex (all ! p) = Some k \<Longrightarrow>
          (\<exists>ps. map_of cte k = Some ps \<and> p \<in> set ps)"
    by (auto simp: index_inv_def)
  have 2: "ps \<noteq> [] \<and> (\<forall>p\<in>set ps. p < Suc i \<and> key_of ex (all ! p) = Some k)"
    if "map_of cte k = Some ps" for k ps
    using a[OF that] by (auto simp: less_Suc_eq)
  have 3: "\<exists>ps. map_of cte k = Some ps \<and> p \<in> set ps"
    if "p < Suc i" "key_of ex (all ! p) = Some k" for p k
  proof -
    from that None have "p \<noteq> i" by auto
    with that(1) have "p < i" by simp
    from b[OF this that(2)] show ?thesis .
  qed
  from d 2 3 None show ?thesis
    unfolding index_inv_def by simp
next
  case (Some c)
  let ?cte = "AList.map_default c [i] (\<lambda>ents. ents @ [i]) cte"
  from assms have d: "distinct (map fst cte)"
    and a: "\<And>k ps. map_of cte k = Some ps \<Longrightarrow>
          ps \<noteq> [] \<and> (\<forall>p\<in>set ps. p < i \<and> key_of ex (all ! p) = Some k)"
    and b: "\<And>p k. p < i \<Longrightarrow> key_of ex (all ! p) = Some k \<Longrightarrow>
          (\<exists>ps. map_of cte k = Some ps \<and> p \<in> set ps)"
    by (auto simp: index_inv_def)
  have m: "map_of ?cte = (map_of cte)(c \<mapsto> (case map_of cte c of None \<Rightarrow> [i] | Some v \<Rightarrow> v @ [i]))"
    by (cases "map_of cte c") (simp_all add: map_of_map_default)
  have 1: "distinct (map fst ?cte)" using d by (rule distinct_map_default)
  have 2: "ps \<noteq> [] \<and> (\<forall>p\<in>set ps. p < Suc i \<and> key_of ex (all ! p) = Some k)"
    if "map_of ?cte k = Some ps" for k ps
  proof (cases "k = c")
    case True
    with that have "ps = (case map_of cte c of None \<Rightarrow> [i] | Some v \<Rightarrow> v @ [i])"
      by (simp add: m)
    with a[of c] Some True show ?thesis
      by (cases "map_of cte c") (auto simp: less_Suc_eq)
  next
    case False
    with that have "map_of cte k = Some ps" by (simp add: m)
    from a[OF this] show ?thesis by (auto simp: less_Suc_eq)
  qed
  have 3: "\<exists>ps. map_of ?cte k = Some ps \<and> p \<in> set ps"
    if "p < Suc i" "key_of ex (all ! p) = Some k" for p k
  proof (cases "p = i")
    case True
    with that Some have "k = c" by simp
    with True show ?thesis by (cases "map_of cte c") (auto simp: m)
  next
    case False
    with that have "p < i" by simp
    from b[OF this that(2)] obtain ps where ps: "map_of cte k = Some ps" "p \<in> set ps" by blast
    then show ?thesis by (cases "k = c") (auto simp: m)
  qed
  from 1 2 3 Some show ?thesis
    unfolding index_inv_def by simp
qed

lemma index_loop_inv:
  assumes "index_loop ex (drop i all) i cte0 = Inr (es1, cte)" "index_inv ex all i cte0"
    "i \<le> length all"
  shows "index_inv ex all (length all) cte"
  using assms
proof (induction "length all - i" arbitrary: i cte0 es1)
  case 0
  then have "drop i all = []" by simp
  with 0 have e: "cte = cte0" and l: "i = length all" by auto
  with 0(3) show ?case by simp
next
  case (Suc n)
  then have i: "i < length all" by simp
  then have dr: "drop i all = all ! i # drop (Suc i) all"
    by (simp add: Cons_nth_drop_Suc)
  from Suc.prems(1) obtain es' where
    "index_loop ex (drop (Suc i) all) (Suc i)
        (case key_of ex (all ! i) of
           None \<Rightarrow> cte0
         | Some c \<Rightarrow> AList.map_default c [i] (\<lambda>ents. ents @ [i]) cte0) = Inr (es', cte)"
    unfolding dr by (auto simp: index_loop_Cons simp del: index_loop.simps split: sum.splits prod.splits)
  moreover have "n = length all - Suc i" using Suc(2) by simp
  moreover have "Suc i \<le> length all" using i by simp
  ultimately show ?case
    using index_inv_step[OF Suc.prems(2)] Suc.hyps(1) by blast
qed

subsection \<open>The loop over the store\<close>

lemma store_apply_in:
  "p < length es \<Longrightarrow>
   store_apply f p es = (case f (es ! p) of Inl e \<Rightarrow> Inl e | Inr e' \<Rightarrow> Inr (es[p := e']))"
  by (simp add: store_apply_def)

lemma store_loop:
  assumes idem: "\<And>c e e'. F c e = Inr e' \<Longrightarrow> F c e' = Inr e'"
    and pos: "\<forall>(c, p)\<in>set qs. p < length es \<and> key p = Some c"
  shows "foldM (\<lambda>(c, p) es. store_apply (F c) p es) qs es = Inr out \<longleftrightarrow>
         length out = length es \<and>
         (\<forall>p<length es. if p \<in> snd ` set qs then F (the (key p)) (es ! p) = Inr (out ! p)
                          else out ! p = es ! p)"
  using pos
proof (induction qs arbitrary: es)
  case Nil
  show ?case by (auto simp: list_eq_iff_nth_eq)
next
  case (Cons q qs)
  obtain c p where q: "q = (c, p)" by (cases q)
  from Cons.prems q have p: "p < length es" "key p = Some c" by auto
  let ?R = "\<lambda>es. length out = length es \<and>
         (\<forall>p<length es. if p \<in> snd ` set qs then F (the (key p)) (es ! p) = Inr (out ! p)
                          else out ! p = es ! p)"
  have IH: "foldM (\<lambda>(c, p) es. store_apply (F c) p es) qs es' = Inr out \<longleftrightarrow> ?R es'"
    if "length es' = length es" for es'
    using Cons.prems that by (intro Cons.IH) auto
  show ?case
  proof
    assume "foldM (\<lambda>(c, p) es. store_apply (F c) p es) (q # qs) es = Inr out"
    then obtain e1 where e1: "F c (es ! p) = Inr e1"
      "foldM (\<lambda>(c, p) es. store_apply (F c) p es) qs (es[p := e1]) = Inr out"
      using p(1) by (auto simp: q store_apply_in split: sum.splits)
    from e1(2) IH[of "es[p := e1]"] have R: "?R (es[p := e1])" by simp
    then have len: "length out = length es" by simp
    have op: "out ! p = e1"
    proof (cases "p \<in> snd ` set qs")
      case True
      with R p have "F c e1 = Inr (out ! p)" by (auto split: if_splits)
      with idem[OF e1(1)] show ?thesis by simp
    next
      case False
      with R p(1) show ?thesis by (auto split: if_splits)
    qed
    have "if p' \<in> snd ` set (q # qs) then F (the (key p')) (es ! p') = Inr (out ! p')
          else out ! p' = es ! p'" if "p' < length es" for p'
    proof (cases "p' = p")
      case True
      with op e1(1) p q show ?thesis by simp
    next
      case False
      with R that have "if p' \<in> snd ` set qs then F (the (key p')) (es ! p') = Inr (out ! p')
          else out ! p' = es ! p'"
        by (auto split: if_splits)
      with False q show ?thesis by auto
    qed
    with len show "length out = length es \<and>
         (\<forall>p<length es. if p \<in> snd ` set (q # qs) then F (the (key p)) (es ! p) = Inr (out ! p)
                          else out ! p = es ! p)" by blast
  next
    assume a: "length out = length es \<and>
         (\<forall>p<length es. if p \<in> snd ` set (q # qs) then F (the (key p)) (es ! p) = Inr (out ! p)
                          else out ! p = es ! p)"
    then have e1: "F c (es ! p) = Inr (out ! p)" using p q by auto
    have "?R (es[p := out ! p])"
    proof (intro conjI allI impI)
      show "length out = length (es[p := out ! p])" using a by simp
    next
      fix p' assume "p' < length (es[p := out ! p])"
      then have l: "p' < length es" by simp
      show "if p' \<in> snd ` set qs then F (the (key p')) (es[p := out ! p] ! p') = Inr (out ! p')
          else out ! p' = es[p := out ! p] ! p'"
      proof (cases "p' = p")
        case True
        with idem[OF e1] p show ?thesis by simp
      next
        case False
        from a l have "if p' \<in> snd ` set (q # qs) then F (the (key p')) (es ! p') = Inr (out ! p')
          else out ! p' = es ! p'" by blast
        with False q show ?thesis by (auto split: if_splits)
      qed
    qed
    with IH[of "es[p := out ! p]"]
    have "foldM (\<lambda>(c, p) es. store_apply (F c) p es) qs (es[p := out ! p]) = Inr out" by simp
    with e1 p(1) show "foldM (\<lambda>(c, p) es. store_apply (F c) p es) (q # qs) es = Inr out"
      by (simp add: q store_apply_in)
  qed
qed

lemma index_inv_empty: "index_inv ex all 0 []"
  by (simp add: index_inv_def)

lemma index_inv_keys:
  assumes "index_inv ex all (length all) cte"
  shows "set (map fst cte) = set (List.map_filter (key_of ex) all)"
proof -
  from assms have d: "distinct (map fst cte)"
    and a: "\<And>k ps. map_of cte k = Some ps \<Longrightarrow>
          ps \<noteq> [] \<and> (\<forall>p\<in>set ps. p < length all \<and> key_of ex (all ! p) = Some k)"
    and b: "\<And>p k. p < length all \<Longrightarrow> key_of ex (all ! p) = Some k \<Longrightarrow>
          (\<exists>ps. map_of cte k = Some ps \<and> p \<in> set ps)"
    by (auto simp: index_inv_def)
  have m: "set (List.map_filter (key_of ex) all) = {k. \<exists>e\<in>set all. key_of ex e = Some k}"
    by (auto simp: map_filter_def image_iff) force
  show ?thesis
  proof (intro equalityI subsetI)
    fix k assume "k \<in> set (map fst cte)"
    then obtain ps where ps: "map_of cte k = Some ps"
      by (metis image_set map_of_eq_None_iff not_Some_eq)
    from a[OF this] obtain p where "p \<in> set ps" "p < length all" "key_of ex (all ! p) = Some k"
      by (cases ps) auto
    then show "k \<in> set (List.map_filter (key_of ex) all)"
      unfolding m by (auto intro: nth_mem)
  next
    fix k assume "k \<in> set (List.map_filter (key_of ex) all)"
    then obtain e where "e \<in> set all" "key_of ex e = Some k" unfolding m by blast
    then obtain p where "p < length all" "key_of ex (all ! p) = Some k"
      by (auto simp: in_set_conv_nth)
    from b[OF this] obtain ps where "map_of cte k = Some ps" by blast
    then show "k \<in> set (map fst cte)"
      by (metis image_set map_of_eq_None_iff option.distinct(1))
  qed
qed

lemma flat_positions:
  assumes "index_inv ex all (length all) cte"
  shows "\<forall>(c, p)\<in>set (concat (map (\<lambda>(c, ps). map (Pair c) ps) cte)).
           p < length all \<and> key_of ex (all ! p) = Some c"
    and "snd ` set (concat (map (\<lambda>(c, ps). map (Pair c) ps) cte)) =
           {p. p < length all \<and> key_of ex (all ! p) \<noteq> None}"
proof -
  let ?qs = "concat (map (\<lambda>(c, ps). map (Pair c) ps) cte)"
  from assms have d: "distinct (map fst cte)"
    and a: "\<And>k ps. map_of cte k = Some ps \<Longrightarrow>
          ps \<noteq> [] \<and> (\<forall>p\<in>set ps. p < length all \<and> key_of ex (all ! p) = Some k)"
    and b: "\<And>p k. p < length all \<Longrightarrow> key_of ex (all ! p) = Some k \<Longrightarrow>
          (\<exists>ps. map_of cte k = Some ps \<and> p \<in> set ps)"
    by (auto simp: index_inv_def)
  have q: "(c, p) \<in> set ?qs \<longleftrightarrow> (\<exists>ps. map_of cte c = Some ps \<and> p \<in> set ps)" for c p
  proof
    assume "(c, p) \<in> set ?qs"
    then obtain ps where "(c, ps) \<in> set cte" "p \<in> set ps" by auto
    with d show "\<exists>ps. map_of cte c = Some ps \<and> p \<in> set ps" by auto
  next
    assume "\<exists>ps. map_of cte c = Some ps \<and> p \<in> set ps"
    then obtain ps where "map_of cte c = Some ps" "p \<in> set ps" by blast
    then have "(c, ps) \<in> set cte" "p \<in> set ps" by (auto dest: map_of_SomeD)
    then show "(c, p) \<in> set ?qs" by force
  qed
  show "\<forall>(c, p)\<in>set ?qs. p < length all \<and> key_of ex (all ! p) = Some c"
    using q a by blast
  show "snd ` set ?qs = {p. p < length all \<and> key_of ex (all ! p) \<noteq> None}"
  proof (intro equalityI subsetI)
    fix p assume "p \<in> snd ` set ?qs"
    then obtain c where "(c, p) \<in> set ?qs" by force
    with q a show "p \<in> {p. p < length all \<and> key_of ex (all ! p) \<noteq> None}" by fastforce
  next
    fix p assume "p \<in> {p. p < length all \<and> key_of ex (all ! p) \<noteq> None}"
    then obtain c where c: "p < length all" "key_of ex (all ! p) = Some c" by auto
    from b[OF this] q have "(c, p) \<in> set ?qs" by blast
    then show "p \<in> snd ` set ?qs" by force
  qed
qed

lemma list_all2_exists:
  "(\<And>x. x \<in> set xs \<Longrightarrow> \<exists>y. Q x y) \<Longrightarrow> \<exists>ys. list_all2 Q xs ys"
proof (induction xs)
  case Nil
  then show ?case by simp
next
  case (Cons x xs)
  then obtain y ys where "Q x y" "list_all2 Q xs ys" by (metis list.set_intros)
  then have "list_all2 Q (x # xs) (y # ys)" by simp
  then show ?case by blast
qed

lemma file_loop:
  assumes idem: "\<And>c e e'. F c e = Inr e' \<Longrightarrow> F c e' = Inr e'"
    and run: "index_loop ex es 0 [] = Inr (es1, cte)"
  shows "foldM (\<lambda>(c, ps) s. foldM (\<lambda>i s. store_apply (F c) i s) ps s) cte es1 = Inr out \<longleftrightarrow>
         list_all2 (\<lambda>e r. (case stamped ex e of
                              Inl f \<Rightarrow> Inl f
                            | Inr e1 \<Rightarrow> (case key_of ex e of None \<Rightarrow> Inr e1 | Some c \<Rightarrow> F c e1))
                           = Inr r) es out"
proof -
  let ?qs = "concat (map (\<lambda>(c, ps). map (Pair c) ps) cte)"
  let ?key = "\<lambda>p. key_of ex (es ! p)"
  from run have st: "list_all2 (\<lambda>e e1. stamped ex e = Inr e1) es es1"
    using index_loop_entries[of ex es 0 "[]" es1] by blast
  then have len: "length es1 = length es"
    and st': "\<And>p. p < length es \<Longrightarrow> stamped ex (es ! p) = Inr (es1 ! p)"
    by (auto simp: list_all2_conv_all_nth)
  have inv: "index_inv ex es (length es) cte"
    using index_loop_inv[of ex 0 es "[]" es1 cte] run by (simp add: index_inv_empty)
  note fp = flat_positions[OF inv]
  have pos: "\<forall>(c, p)\<in>set ?qs. p < length es1 \<and> ?key p = Some c"
    using fp(1) len by simp
  have "foldM (\<lambda>(c, ps) s. foldM (\<lambda>i s. store_apply (F c) i s) ps s) cte es1 =
        foldM (\<lambda>(c, p) s. store_apply (F c) p s) ?qs es1"
    by (rule foldM_nested)
  also have "\<dots> = Inr out \<longleftrightarrow>
         length out = length es1 \<and>
         (\<forall>p<length es1. if p \<in> snd ` set ?qs then F (the (?key p)) (es1 ! p) = Inr (out ! p)
                          else out ! p = es1 ! p)"
    by (rule store_loop[OF idem pos])
  also have "\<dots> \<longleftrightarrow> length es = length out \<and>
       (\<forall>p<length es. (case stamped ex (es ! p) of
                              Inl f \<Rightarrow> Inl f
                            | Inr e1 \<Rightarrow> (case ?key p of None \<Rightarrow> Inr e1 | Some c \<Rightarrow> F c e1))
                           = Inr (out ! p))"
  proof -
    have "(if p \<in> snd ` set ?qs then F (the (?key p)) (es1 ! p) = Inr (out ! p)
           else out ! p = es1 ! p) \<longleftrightarrow>
          (case stamped ex (es ! p) of
                              Inl f \<Rightarrow> Inl f
                            | Inr e1 \<Rightarrow> (case ?key p of None \<Rightarrow> Inr e1 | Some c \<Rightarrow> F c e1))
                           = Inr (out ! p)" if "p < length es" for p
      using that fp(2) st'[OF that] by (cases "?key p") auto
    then show ?thesis using len by auto
  qed
  finally show ?thesis by (simp add: list_all2_conv_all_nth)
qed

lemma index_loop_keys:
  assumes "index_loop ex es 0 [] = Inr (es1, cte)"
  shows "set (map fst cte) = set (List.map_filter (key_of ex) es)" "distinct (map fst cte)"
proof -
  have inv: "index_inv ex es (length es) cte"
    using index_loop_inv[of ex 0 es "[]" es1 cte] assms by (simp add: index_inv_empty)
  then show "set (map fst cte) = set (List.map_filter (key_of ex) es)" by (rule index_inv_keys)
  from inv show "distinct (map fst cte)" by (simp add: index_inv_def)
qed

lemma set_item_idem: "set_item k v e = Inr e' \<Longrightarrow> set_item k v e' = Inr e'"
  by (auto simp: set_item_def split: json.splits)

lemma assign_hierarchy_tables_idem:
  assumes "assign_hierarchy_tables b n e = Inr e'"
  shows "assign_hierarchy_tables b n e' = Inr e'"
proof -
  from assms obtain d where e: "e = JObj d"
    by (cases e) (auto simp: assign_hierarchy_tables_def)
  define d1 where "d1 = (if map_of d ''hierarchy'' = None
                     then AList.update ''hierarchy'' (JObj []) d else d)"
  from assms e obtain hd where hd: "dict_get d1 ''hierarchy'' = JObj hd"
    by (cases "dict_get d1 ''hierarchy''")
       (auto simp: assign_hierarchy_tables_def set_item_def d1_def Let_def)
  define hd2 where "hd2 = AList.update ''broader'' (json_of_code b)
                            (AList.update ''narrower'' (JArr (map JStr n)) hd)"
  from assms e hd have e': "e' = JObj (AList.update ''hierarchy'' (JObj hd2) d1)"
    by (auto simp: assign_hierarchy_tables_def set_item_def d1_def hd2_def Let_def)
  let ?d' = "AList.update ''hierarchy'' (JObj hd2) d1"
  have m: "map_of ?d' ''hierarchy'' = Some (JObj hd2)" by (simp add: update_conv')
  have g: "dict_get ?d' ''hierarchy'' = JObj hd2" by (simp add: dict_get_def m)
  have n1: "map_of hd2 ''narrower'' = Some (JArr (map JStr n))"
    by (simp add: hd2_def update_conv')
  have b1: "map_of hd2 ''broader'' = Some (json_of_code b)"
    by (simp add: hd2_def update_conv')
  have u1: "AList.update ''narrower'' (JArr (map JStr n)) hd2 = hd2"
    using n1 by (rule update_triv)
  have u2: "AList.update ''broader'' (json_of_code b) hd2 = hd2"
    using b1 by (rule update_triv)
  have u3: "AList.update ''hierarchy'' (JObj hd2) ?d' = ?d'" by simp
  show ?thesis
    unfolding e' assign_hierarchy_tables_def
    by (simp add: m g set_item_def u1 u2)
qed

lemma map_of_broader_map:
  "broader_get (map (\<lambda>c. (c, f c)) codes) c = (if c \<in> set codes then f c else None)"
  by (induction codes) (auto simp: broader_get_def)

lemma key_of_extractor_a: "key_of extractor_a = entry_code"
  by (auto simp: fun_eq_iff key_of_def extractor_a_def entry_code_def split: json.splits sum.splits)

lemma key_of_extractor_b: "key_of extractor_b = entry_code_tables"
  by (auto simp: fun_eq_iff key_of_def extractor_b_def entry_code_tables_def
           split: json.splits sum.splits option.splits)

lemma annotate_alt:
  "annotate C e =
     (case stamped extractor_a e of
        Inl f \<Rightarrow> Inl f
      | Inr e1 \<Rightarrow>
          (case key_of extractor_a e of
             None \<Rightarrow> Inr e1
           | Some c \<Rightarrow> set_item ''hierarchy'' (hierarchy_of C c) e1))"
  by (auto simp: annotate_def stamped_def key_of_def extractor_a_def
           split: json.splits sum.splits)

lemma annotate_tables_alt:
  "annotate_tables C e =
     (case stamped extractor_b e of
        Inl f \<Rightarrow> Inl f
      | Inr e1 \<Rightarrow>
          (case key_of extractor_b e of
             None \<Rightarrow> Inr e1
           | Some c \<Rightarrow>
               assign_hierarchy_tables (compute_broader_tables c {s \<in> C. \<not> has_ddash s})
                 (sorted_list_of_set (children_of_tables C c)) e1))"
  by (cases e)
     (auto simp: annotate_tables_def stamped_def key_of_extractor_b extractor_b_def
                 entry_code_tables_def
           split: sum.splits option.splits)

subsection \<open>The files\<close>

text \<open>
  A file is processed without failure exactly when every entry is annotated without
  failure, and the entries written are the annotated entries.
\<close>

lemma list_all2_lhs_ex: "list_all2 P xs ys \<Longrightarrow> x \<in> set xs \<Longrightarrow> \<exists>y. P x y"
  by (auto simp: list_all2_conv_all_nth in_set_conv_nth)

lemma index_loop_fails:
  assumes "index_loop ex es 0 [] = Inl f"
  shows "\<not> list_all2 (\<lambda>e r. (case stamped ex e of Inl f \<Rightarrow> Inl f | Inr e1 \<Rightarrow> G e e1) = Inr r) es out"
proof
  assume a: "list_all2 (\<lambda>e r. (case stamped ex e of Inl f \<Rightarrow> Inl f | Inr e1 \<Rightarrow> G e e1) = Inr r) es out"
  have "\<exists>e1. stamped ex e = Inr e1" if "e \<in> set es" for e
    using list_all2_lhs_ex[OF a that] by (cases "stamped ex e") auto
  then obtain es1 where "list_all2 (\<lambda>e e1. stamped ex e = Inr e1) es es1"
    using list_all2_exists[of es "\<lambda>e e1. stamped ex e = Inr e1"] by blast
  then obtain cte where "index_loop ex es 0 [] = Inr (es1, cte)"
    using index_loop_entries[of ex es 0 "[]" es1] by blast
  with assms show False by simp
qed

lemma process_file_char:
  "process_file (JArr es) = Inr out \<longleftrightarrow>
   list_all2 (\<lambda>e r. annotate (index_codes es) e = Inr r) es out"
proof (cases "index_loop extractor_a es 0 []")
  case (Inl f)
  then have "process_file (JArr es) = Inl f"
    by (simp add: process_file_def build_indices_index_loop)
  moreover have "\<not> list_all2 (\<lambda>e r. annotate (index_codes es) e = Inr r) es out"
    unfolding annotate_alt by (rule index_loop_fails[OF Inl])
  ultimately show ?thesis by simp
next
  case (Inr r)
  obtain es1 cte where r: "r = (es1, cte)" by (cases r)
  with Inr have run: "index_loop extractor_a es 0 [] = Inr (es1, cte)" by simp
  let ?codes = "map fst cte"
  let ?S = "{c \<in> set ?codes. \<not> has_dash c}"
  from index_loop_keys[OF run] have keys: "set ?codes = index_codes es" and d: "distinct ?codes"
    by (simp_all add: key_of_extractor_a index_codes_def)
  from build_child_map_char[OF d] obtain cm where
    cm: "build_child_map ?codes = Inr cm"
        "\<And>k. map_of cm k = (if k \<in> set ?codes then Some (children_of (set ?codes) k) else None)"
    by blast
  let ?F = "\<lambda>code. set_item ''hierarchy''
              (hierarchy_json (broader_get (map (\<lambda>c. (c, compute_broader c ?S)) ?codes) code)
                 (sorted_list_of_set (dict_get_set cm code)))"
  let ?F' = "\<lambda>c. set_item ''hierarchy'' (hierarchy_of (index_codes es) c)"
  have pf: "process_file (JArr es) =
      foldM (\<lambda>(code, ents) s. foldM (\<lambda>i s. store_apply (?F code) i s) ents s) cte es1"
    by (simp add: process_file_def build_indices_index_loop run Let_def cm(1))
  have F: "?F c = ?F' c" if "c \<in> set ?codes" for c
  proof -
    have 1: "broader_get (map (\<lambda>c. (c, compute_broader c ?S)) ?codes) c = compute_broader c ?S"
      using that by (simp only: map_of_broader_map if_True)
    have 2: "dict_get_set cm c = children_of (set ?codes) c"
      using that by (simp add: dict_get_set_def cm(2))
    show ?thesis unfolding 1 2 by (simp only: keys hierarchy_of_def)
  qed
  have "foldM (\<lambda>(code, ents) s. foldM (\<lambda>i s. store_apply (?F code) i s) ents s) cte es1 =
        foldM (\<lambda>(c, ps) s. foldM (\<lambda>i s. store_apply (?F' c) i s) ps s) cte es1"
  proof (rule foldM_cong)
    fix x :: "string \<times> nat list" and s :: "json list"
    assume "x \<in> set cte"
    then have "fst x \<in> set ?codes" by simp
    from F[OF this] show "(\<lambda>(code, ents) s. foldM (\<lambda>i s. store_apply (?F code) i s) ents s) x s =
          (\<lambda>(c, ps) s. foldM (\<lambda>i s. store_apply (?F' c) i s) ps s) x s"
      by (simp add: case_prod_beta)
  qed
  with pf have "process_file (JArr es) =
        foldM (\<lambda>(c, ps) s. foldM (\<lambda>i s. store_apply (?F' c) i s) ps s) cte es1" by simp
  then show ?thesis
    unfolding annotate_alt
    using file_loop[of ?F' extractor_a es es1 cte out, OF set_item_idem run] by simp
qed

lemma process_file_tables_char:
  "process_file_tables (JArr es) = Inr out \<longleftrightarrow>
   list_all2 (\<lambda>e r. annotate_tables (index_codes_tables es) e = Inr r) es out"
proof (cases "index_loop extractor_b es 0 []")
  case (Inl f)
  then have "process_file_tables (JArr es) = Inl f"
    by (simp add: process_file_tables_def build_indices_tables_index_loop)
  moreover have "\<not> list_all2 (\<lambda>e r. annotate_tables (index_codes_tables es) e = Inr r) es out"
    unfolding annotate_tables_alt by (rule index_loop_fails[OF Inl])
  ultimately show ?thesis by simp
next
  case (Inr r)
  obtain es1 cte where r: "r = (es1, cte)" by (cases r)
  with Inr have run: "index_loop extractor_b es 0 [] = Inr (es1, cte)" by simp
  let ?codes = "map fst cte"
  let ?S = "{c \<in> set ?codes. \<not> has_ddash c}"
  from index_loop_keys[OF run] have keys: "set ?codes = index_codes_tables es"
    and d: "distinct ?codes"
    by (simp_all add: key_of_extractor_b index_codes_tables_def)
  from build_child_map_tables_char[OF d] obtain cm where
    cm: "build_child_map_tables ?codes = Inr cm"
        "\<And>k. map_of cm k =
           (if k \<in> set ?codes then Some (children_of_tables (set ?codes) k) else None)"
    by blast
  let ?F = "\<lambda>code. assign_hierarchy_tables
              (broader_get (map (\<lambda>c. (c, compute_broader_tables c ?S)) ?codes) code)
              (sorted_list_of_set (dict_get_set cm code))"
  let ?F' = "\<lambda>c. assign_hierarchy_tables
              (compute_broader_tables c {s \<in> index_codes_tables es. \<not> has_ddash s})
              (sorted_list_of_set (children_of_tables (index_codes_tables es) c))"
  have pf: "process_file_tables (JArr es) =
      foldM (\<lambda>(code, ents) s. foldM (\<lambda>i s. store_apply (?F code) i s) ents s) cte es1"
    by (simp add: process_file_tables_def build_indices_tables_index_loop run Let_def cm(1))
  have F: "?F c = ?F' c" if "c \<in> set ?codes" for c
  proof -
    have 1: "broader_get (map (\<lambda>c. (c, compute_broader_tables c ?S)) ?codes) c =
             compute_broader_tables c ?S"
      using that by (simp only: map_of_broader_map if_True)
    have 2: "dict_get_set cm c = children_of_tables (set ?codes) c"
      using that by (simp add: dict_get_set_def cm(2))
    show ?thesis unfolding 1 2 by (simp only: keys)
  qed
  have "foldM (\<lambda>(code, ents) s. foldM (\<lambda>i s. store_apply (?F code) i s) ents s) cte es1 =
        foldM (\<lambda>(c, ps) s. foldM (\<lambda>i s. store_apply (?F' c) i s) ps s) cte es1"
  proof (rule foldM_cong)
    fix x :: "string \<times> nat list" and s :: "json list"
    assume "x \<in> set cte"
    then have "fst x \<in> set ?codes" by simp
    from F[OF this] show "(\<lambda>(code, ents) s. foldM (\<lambda>i s. store_apply (?F code) i s) ents s) x s =
          (\<lambda>(c, ps) s. foldM (\<lambda>i s. store_apply (?F' c) i s) ps s) x s"
      by (simp add: case_prod_beta)
  qed
  with pf have "process_file_tables (JArr es) =
        foldM (\<lambda>(c, ps) s. foldM (\<lambda>i s. store_apply (?F' c) i s) ps s) cte es1" by simp
  then show ?thesis
    unfolding annotate_tables_alt
    using file_loop[of ?F' extractor_b es es1 cte out, OF assign_hierarchy_tables_idem run]
    by simp
qed

section \<open>Properties of the child map\<close>

lemma expand_range_children_simple:
  "sc \<in> expand_range_children rc S \<Longrightarrow> sc \<in> S \<and> \<not> has_dash sc"
  by (auto simp: expand_range_children_def Let_def split: option.splits if_splits prod.splits)

lemma expand_range_children_tables_simple:
  "sc \<in> expand_range_children_tables rc S \<Longrightarrow> sc \<in> S \<and> \<not> has_ddash sc"
  by (auto simp: expand_range_children_tables_def split: option.splits if_splits prod.splits)

lemma not_immediate_child_self: "\<not> immediate_child c c"
  by (simp add: immediate_child_def startswith_def Let_def)

lemma children_of_not_self: "c \<notin> children_of C c"
proof
  assume a: "c \<in> children_of C c"
  let ?S = "{s \<in> C. \<not> has_dash s}"
  show False
  proof (cases "has_dash c")
    case True
    from a True have "c \<in> expand_range_children c ?S \<or> c \<in> ?S"
      by (auto simp: children_of_def Let_def dest: range_parent_in)
    with True show False by (auto dest: expand_range_children_simple)
  next
    case False
    with a show False
      by (auto simp: children_of_def Let_def not_immediate_child_self)
  qed
qed

lemma children_of_tables_not_self: "c \<notin> children_of_tables C c"
proof
  assume a: "c \<in> children_of_tables C c"
  let ?S = "{s \<in> C. \<not> has_ddash s}"
  show False
  proof (cases "has_ddash c")
    case True
    from a True have "c \<in> expand_range_children_tables c ?S \<or> c \<in> ?S"
      by (auto simp: children_of_tables_def Let_def dest: range_parent_tables_in)
    with True show False by (auto dest: expand_range_children_tables_simple)
  next
    case False
    with a show False
      by (auto simp: children_of_tables_def Let_def immediate_child_tables_def)
  qed
qed

lemma malformed_no_children: 
  assumes "has_dash c" "split_range c = None"
  shows "children_of C c = {}"
proof -
  have "expand_range_children c S = {}" for S
    using assms by (simp add: expand_range_children_def)
  moreover have "{rc \<in> C. has_dash rc \<and> range_parent rc {s \<in> C. \<not> has_dash s} = Some c \<and> c \<noteq> []} = {}"
    using assms(1) by (auto dest: range_parent_in)
  ultimately show ?thesis using assms(1) by (simp add: children_of_def Let_def)
qed

lemma malformed_not_a_child:
  assumes "has_dash c" "split_range c = None"
  shows "c \<notin> children_of C p"
proof
  assume a: "c \<in> children_of C p"
  have "range_parent c S = None" for S
    using assms by (simp add: range_parent_def)
  with a assms(1) show False
    by (auto simp: children_of_def Let_def immediate_child_def
             dest: expand_range_children_simple split: if_splits)
qed

section \<open>Properties of the files\<close>

subsection \<open>Entries without a code\<close>

lemma process_file_nth:
  assumes "process_file (JArr es) = Inr out"
  shows "length out = length es"
    and "i < length es \<Longrightarrow> annotate (index_codes es) (es ! i) = Inr (out ! i)"
  using assms by (auto simp: process_file_char list_all2_conv_all_nth)

lemma process_file_tables_nth:
  assumes "process_file_tables (JArr es) = Inr out"
  shows "length out = length es"
    and "i < length es \<Longrightarrow> annotate_tables (index_codes_tables es) (es ! i) = Inr (out ! i)"
  using assms by (auto simp: process_file_tables_char list_all2_conv_all_nth)

lemma index_positions_have_key:
  assumes "index_loop ex es 0 [] = Inr (es1, cte)" "(c, ps) \<in> set cte" "p \<in> set ps"
  shows "p < length es \<and> key_of ex (es ! p) = Some c"
proof -
  have inv: "index_inv ex es (length es) cte"
    using index_loop_inv[of ex 0 es "[]" es1 cte] assms(1) by (simp add: index_inv_empty)
  then have "distinct (map fst cte)" by (simp add: index_inv_def)
  with assms(2) have "map_of cte c = Some ps" by simp
  with inv assms(3) show ?thesis by (auto simp: index_inv_def)
qed

lemma annotate_no_code:
  "extract_code d = Inr [] \<Longrightarrow>
   annotate C (JObj d) = Inr (JObj (AList.update ''bfCode'' (JStr []) d))"
  by (simp add: annotate_def)

lemma annotate_tables_no_code:
  "extract_code_tables d = Inr code \<Longrightarrow> code = None \<or> code = Some [] \<Longrightarrow>
   annotate_tables C (JObj d) = Inr (JObj (AList.update ''bfCode'' (json_of_code code) d))"
  by (auto simp: annotate_tables_def entry_code_tables_def)

lemma annotate_not_dict: "(\<And>d. e \<noteq> JObj d) \<Longrightarrow> annotate C e = Inr e"
  by (cases e) (auto simp: annotate_def)

lemma annotate_tables_not_dict: "(\<And>d. e \<noteq> JObj d) \<Longrightarrow> annotate_tables C e = Inr e"
  by (cases e) (auto simp: annotate_tables_def)

lemma entry_hierarchy_bfcode:
  "entry_hierarchy (JObj (AList.update ''bfCode'' v d)) = entry_hierarchy (JObj d)"
  by (simp add: entry_hierarchy_def dict_get_def update_conv')

lemma no_code_entry_a:
  assumes p: "process_file (JArr es) = Inr out" and i: "i < length es"
    and a: "es ! i = JObj d" "extract_code d = Inr []"
  shows "out ! i = JObj (AList.update ''bfCode'' (JStr []) d)"
    and "entry_hierarchy (out ! i) = entry_hierarchy (es ! i)"
    and "build_indices es 0 [] = Inr (es1, cte) \<Longrightarrow> (c, ps) \<in> set cte \<Longrightarrow> i \<notin> set ps"
proof -
  from process_file_nth(2)[OF p i] a
  show o: "out ! i = JObj (AList.update ''bfCode'' (JStr []) d)"
    by (simp add: annotate_no_code)
  from a o show "entry_hierarchy (out ! i) = entry_hierarchy (es ! i)"
    by (simp add: entry_hierarchy_bfcode)
  assume b: "build_indices es 0 [] = Inr (es1, cte)" "(c, ps) \<in> set cte"
  show "i \<notin> set ps"
  proof
    assume "i \<in> set ps"
    with b index_positions_have_key[of extractor_a es es1 cte c ps i]
    have "entry_code (es ! i) = Some c"
      by (simp add: build_indices_index_loop key_of_extractor_a)
    with a show False by (simp add: entry_code_def)
  qed
qed

lemma no_code_entry_b:
  assumes p: "process_file_tables (JArr es) = Inr out" and i: "i < length es"
    and a: "es ! i = JObj d" "extract_code_tables d = Inr code" "code = None \<or> code = Some []"
  shows "out ! i = JObj (AList.update ''bfCode'' (json_of_code code) d)"
    and "entry_hierarchy (out ! i) = entry_hierarchy (es ! i)"
    and "build_indices_tables es 0 [] = Inr (es1, cte) \<Longrightarrow> (c, ps) \<in> set cte \<Longrightarrow> i \<notin> set ps"
proof -
  from process_file_tables_nth(2)[OF p i] a annotate_tables_no_code[OF a(2,3)]
  show o: "out ! i = JObj (AList.update ''bfCode'' (json_of_code code) d)"
    by simp
  from a o show "entry_hierarchy (out ! i) = entry_hierarchy (es ! i)"
    by (simp add: entry_hierarchy_bfcode)
  assume b: "build_indices_tables es 0 [] = Inr (es1, cte)" "(c, ps) \<in> set cte"
  show "i \<notin> set ps"
  proof
    assume "i \<in> set ps"
    with b index_positions_have_key[of extractor_b es es1 cte c ps i]
    have "entry_code_tables (es ! i) = Some c"
      by (simp add: build_indices_tables_index_loop key_of_extractor_b)
    with a show False by (auto simp: entry_code_tables_def)
  qed
qed

lemma not_dict_entry_a:
  assumes "process_file (JArr es) = Inr out" "i < length es" "\<forall>d. es ! i \<noteq> JObj d"
  shows "out ! i = es ! i"
  using process_file_nth(2)[OF assms(1,2)] assms(3) by (simp add: annotate_not_dict)

lemma not_dict_entry_b:
  assumes "process_file_tables (JArr es) = Inr out" "i < length es" "\<forall>d. es ! i \<noteq> JObj d"
  shows "out ! i = es ! i"
  using process_file_tables_nth(2)[OF assms(1,2)] assms(3) by (simp add: annotate_tables_not_dict)

text \<open>
  C2, as amended. An entry from which no code is extracted is not in the code index and
  its \<^verbatim>\<open>hierarchy\<close> is left as it was, but the entry is written out with
  \<^verbatim>\<open>bfCode\<close> set: to the empty string by the schedule script, to the empty string or
  null by the table script. An entry that is not a dictionary is written out unchanged.
\<close>


theorem entry_without_code_gets_bfcode_only:
  "(process_file (JArr es) = Inr out \<and> i < length es \<longrightarrow>
      (\<forall>d. es ! i = JObj d \<and> extract_code d = Inr [] \<longrightarrow>
           out ! i = JObj (AList.update ''bfCode'' (JStr []) d) \<and>
           entry_hierarchy (out ! i) = entry_hierarchy (es ! i) \<and>
           (\<forall>es1 cte c ps. build_indices es 0 [] = Inr (es1, cte) \<and> (c, ps) \<in> set cte
                \<longrightarrow> i \<notin> set ps)) \<and>
      ((\<forall>d. es ! i \<noteq> JObj d) \<longrightarrow> out ! i = es ! i)) \<and>
   (process_file_tables (JArr tes) = Inr tout \<and> j < length tes \<longrightarrow>
      (\<forall>d code. tes ! j = JObj d \<and> extract_code_tables d = Inr code \<and>
                (code = None \<or> code = Some []) \<longrightarrow>
           tout ! j = JObj (AList.update ''bfCode'' (json_of_code code) d) \<and>
           entry_hierarchy (tout ! j) = entry_hierarchy (tes ! j) \<and>
           (\<forall>es1 cte c ps. build_indices_tables tes 0 [] = Inr (es1, cte) \<and> (c, ps) \<in> set cte
                \<longrightarrow> j \<notin> set ps)) \<and>
      ((\<forall>d. tes ! j \<noteq> JObj d) \<longrightarrow> tout ! j = tes ! j))"
proof (rule conjI)
  show "process_file (JArr es) = Inr out \<and> i < length es \<longrightarrow>
      (\<forall>d. es ! i = JObj d \<and> extract_code d = Inr [] \<longrightarrow>
           out ! i = JObj (AList.update ''bfCode'' (JStr []) d) \<and>
           entry_hierarchy (out ! i) = entry_hierarchy (es ! i) \<and>
           (\<forall>es1 cte c ps. build_indices es 0 [] = Inr (es1, cte) \<and> (c, ps) \<in> set cte
                \<longrightarrow> i \<notin> set ps)) \<and>
      ((\<forall>d. es ! i \<noteq> JObj d) \<longrightarrow> out ! i = es ! i)"
  proof (rule impI)
    assume h: "process_file (JArr es) = Inr out \<and> i < length es"
    then have p: "process_file (JArr es) = Inr out" and i: "i < length es" by simp_all
    show "(\<forall>d. es ! i = JObj d \<and> extract_code d = Inr [] \<longrightarrow>
           out ! i = JObj (AList.update ''bfCode'' (JStr []) d) \<and>
           entry_hierarchy (out ! i) = entry_hierarchy (es ! i) \<and>
           (\<forall>es1 cte c ps. build_indices es 0 [] = Inr (es1, cte) \<and> (c, ps) \<in> set cte
                \<longrightarrow> i \<notin> set ps)) \<and>
      ((\<forall>d. es ! i \<noteq> JObj d) \<longrightarrow> out ! i = es ! i)"
    proof (intro conjI allI impI)
      fix d assume "es ! i = JObj d \<and> extract_code d = Inr []"
      then have a: "es ! i = JObj d" "extract_code d = Inr []" by simp_all
      show "out ! i = JObj (AList.update ''bfCode'' (JStr []) d)"
        by (rule no_code_entry_a(1)[OF p i a])
      show "entry_hierarchy (out ! i) = entry_hierarchy (es ! i)"
        by (rule no_code_entry_a(2)[OF p i a])
      fix es1 cte c ps
      assume "build_indices es 0 [] = Inr (es1, cte) \<and> (c, ps) \<in> set cte"
      then have b: "build_indices es 0 [] = Inr (es1, cte)" "(c, ps) \<in> set cte" by simp_all
      show "i \<notin> set ps" by (rule no_code_entry_a(3)[OF p i a b])
    next
      assume "\<forall>d. es ! i \<noteq> JObj d"
      then show "out ! i = es ! i" by (rule not_dict_entry_a[OF p i])
    qed
  qed
next
  show "process_file_tables (JArr tes) = Inr tout \<and> j < length tes \<longrightarrow>
      (\<forall>d code. tes ! j = JObj d \<and> extract_code_tables d = Inr code \<and>
                (code = None \<or> code = Some []) \<longrightarrow>
           tout ! j = JObj (AList.update ''bfCode'' (json_of_code code) d) \<and>
           entry_hierarchy (tout ! j) = entry_hierarchy (tes ! j) \<and>
           (\<forall>es1 cte c ps. build_indices_tables tes 0 [] = Inr (es1, cte) \<and> (c, ps) \<in> set cte
                \<longrightarrow> j \<notin> set ps)) \<and>
      ((\<forall>d. tes ! j \<noteq> JObj d) \<longrightarrow> tout ! j = tes ! j)"
  proof (rule impI)
    assume h: "process_file_tables (JArr tes) = Inr tout \<and> j < length tes"
    then have p: "process_file_tables (JArr tes) = Inr tout" and j: "j < length tes"
      by simp_all
    show "(\<forall>d code. tes ! j = JObj d \<and> extract_code_tables d = Inr code \<and>
                (code = None \<or> code = Some []) \<longrightarrow>
           tout ! j = JObj (AList.update ''bfCode'' (json_of_code code) d) \<and>
           entry_hierarchy (tout ! j) = entry_hierarchy (tes ! j) \<and>
           (\<forall>es1 cte c ps. build_indices_tables tes 0 [] = Inr (es1, cte) \<and> (c, ps) \<in> set cte
                \<longrightarrow> j \<notin> set ps)) \<and>
      ((\<forall>d. tes ! j \<noteq> JObj d) \<longrightarrow> tout ! j = tes ! j)"
    proof (intro conjI allI impI)
      fix d code
      assume "tes ! j = JObj d \<and> extract_code_tables d = Inr code \<and>
                (code = None \<or> code = Some [])"
      then have a: "tes ! j = JObj d" "extract_code_tables d = Inr code"
        "code = None \<or> code = Some []" by simp_all
      show "tout ! j = JObj (AList.update ''bfCode'' (json_of_code code) d)"
        by (rule no_code_entry_b(1)[OF p j a])
      show "entry_hierarchy (tout ! j) = entry_hierarchy (tes ! j)"
        by (rule no_code_entry_b(2)[OF p j a])
      fix es1 cte c ps
      assume "build_indices_tables tes 0 [] = Inr (es1, cte) \<and> (c, ps) \<in> set cte"
      then have b: "build_indices_tables tes 0 [] = Inr (es1, cte)" "(c, ps) \<in> set cte"
        by simp_all
      show "j \<notin> set ps" by (rule no_code_entry_b(3)[OF p j a b])
    next
      assume "\<forall>d. tes ! j \<noteq> JObj d"
      then show "tout ! j = tes ! j" by (rule not_dict_entry_b[OF p j])
    qed
  qed
qed

theorem entry_without_code_gets_bfcode_only_witness:
  "process_file (JArr [JObj [(''title'', JStr ''Law''), (''notation'', JStr [])], JNum 7,
                       JObj [(''id'', JStr ''Volume1-340'')]]) =
     Inr [JObj [(''title'', JStr ''Law''), (''notation'', JStr []), (''bfCode'', JStr [])],
          JNum 7,
          JObj [(''id'', JStr ''Volume1-340''), (''bfCode'', JStr ''340''),
                (''hierarchy'', JObj [(''broader'', JNull), (''narrower'', JArr [])])]] \<and>
   extract_code [(''title'', JStr ''Law''), (''notation'', JStr [])] = Inr [] \<and>
   build_indices [JObj [(''title'', JStr ''Law''), (''notation'', JStr [])], JNum 7,
                  JObj [(''id'', JStr ''Volume1-340'')]] 0 [] =
     Inr ([JObj [(''title'', JStr ''Law''), (''notation'', JStr []), (''bfCode'', JStr [])],
           JNum 7, JObj [(''id'', JStr ''Volume1-340''), (''bfCode'', JStr ''340'')]],
          [(''340'', [2])]) \<and>
   (0::nat) \<notin> set [2] \<and>
   process_file_tables (JArr [JObj [(''title'', JStr ''Law'')], JNull,
                              JObj [(''notation'', JStr ''-04'')]]) =
     Inr [JObj [(''title'', JStr ''Law''), (''bfCode'', JNull)], JNull,
          JObj [(''notation'', JStr ''-04''), (''bfCode'', JStr ''-04''),
                (''hierarchy'', JObj [(''narrower'', JArr []), (''broader'', JNull)])]] \<and>
   extract_code_tables [(''title'', JStr ''Law'')] = Inr None"
proof -
  let ?es = "[JObj [(''title'', JStr ''Law''), (''notation'', JStr [])], JNum 7,
              JObj [(''id'', JStr ''Volume1-340'')]]"
  let ?out = "[JObj [(''title'', JStr ''Law''), (''notation'', JStr []), (''bfCode'', JStr [])],
          JNum 7,
          JObj [(''id'', JStr ''Volume1-340''), (''bfCode'', JStr ''340''),
                (''hierarchy'', JObj [(''broader'', JNull), (''narrower'', JArr [])])]]"
  let ?tes = "[JObj [(''title'', JStr ''Law'')], JNull, JObj [(''notation'', JStr ''-04'')]]"
  let ?tout = "[JObj [(''title'', JStr ''Law''), (''bfCode'', JNull)], JNull,
          JObj [(''notation'', JStr ''-04''), (''bfCode'', JStr ''-04''),
                (''hierarchy'', JObj [(''narrower'', JArr []), (''broader'', JNull)])]]"
  have p: "process_file (JArr ?es) = Inr ?out" by code_simp
  have e: "extract_code [(''title'', JStr ''Law''), (''notation'', JStr [])] = Inr []"
    by code_simp
  have b: "build_indices ?es 0 [] =
     Inr ([JObj [(''title'', JStr ''Law''), (''notation'', JStr []), (''bfCode'', JStr [])],
           JNum 7, JObj [(''id'', JStr ''Volume1-340''), (''bfCode'', JStr ''340'')]],
          [(''340'', [2])])" by code_simp
  have tp: "process_file_tables (JArr ?tes) = Inr ?tout" by code_simp
  have te: "extract_code_tables [(''title'', JStr ''Law'')] = Inr None" by code_simp
  note r = entry_without_code_gets_bfcode_only[of ?es ?out 0 ?tes ?tout 0]
  have hA: "process_file (JArr ?es) = Inr ?out \<and> 0 < length ?es" using p by simp
  have hD: "?es ! 0 = JObj [(''title'', JStr ''Law''), (''notation'', JStr [])] \<and>
            extract_code [(''title'', JStr ''Law''), (''notation'', JStr [])] = Inr []"
    using e by simp
  have hB: "build_indices ?es 0 [] =
     Inr ([JObj [(''title'', JStr ''Law''), (''notation'', JStr []), (''bfCode'', JStr [])],
           JNum 7, JObj [(''id'', JStr ''Volume1-340''), (''bfCode'', JStr ''340'')]],
          [(''340'', [2])]) \<and> (''340'', [2]) \<in> set [(''340'', [2::nat])]"
    using b by simp
  note rA = r[THEN conjunct1, rule_format, OF hA, THEN conjunct1, rule_format, OF hD]
  from rA[THEN conjunct2, THEN conjunct2, rule_format, OF hB]
  have n: "(0::nat) \<notin> set [2]" .
  from p e b n tp te show ?thesis by simp
qed

theorem unindexed_entry_is_modified_counterexample:
  "extract_code [(''title'', JStr ''Law'')] = Inr [] \<and>
   process_file (JArr [JObj [(''title'', JStr ''Law'')]]) =
     Inr [JObj [(''title'', JStr ''Law''), (''bfCode'', JStr [])]] \<and>
   JObj [(''title'', JStr ''Law''), (''bfCode'', JStr [])] \<noteq> JObj [(''title'', JStr ''Law'')] \<and>
   extract_code_tables [(''title'', JStr ''Law'')] = Inr None \<and>
   process_file_tables (JArr [JObj [(''title'', JStr ''Law'')]]) =
     Inr [JObj [(''title'', JStr ''Law''), (''bfCode'', JNull)]]"
  by code_simp

subsection \<open>Entries that share a code\<close>

lemma children_of_subset: "children_of C c \<subseteq> C"
  by (auto simp: children_of_def Let_def dest: expand_range_children_simple split: if_splits)

lemma children_of_tables_subset: "children_of_tables C c \<subseteq> C"
  by (auto simp: children_of_tables_def Let_def dest: expand_range_children_tables_simple
           split: if_splits)

lemma finite_children_of: "finite (children_of (index_codes es) c)"
  by (rule finite_subset[OF children_of_subset]) (simp add: index_codes_def)

lemma finite_children_of_tables: "finite (children_of_tables (index_codes_tables es) c)"
  by (rule finite_subset[OF children_of_tables_subset]) (simp add: index_codes_tables_def)

lemma entry_code_SomeD:
  "entry_code e = Some c \<Longrightarrow> \<exists>d. e = JObj d \<and> extract_code d = Inr c \<and> c \<noteq> []"
  by (auto simp: entry_code_def split: json.splits sum.splits if_splits)

lemma entry_code_tables_SomeD:
  "entry_code_tables e = Some c \<Longrightarrow>
   \<exists>d. e = JObj d \<and> extract_code_tables d = Inr (Some c) \<and> c \<noteq> []"
  by (auto simp: entry_code_tables_def split: json.splits sum.splits option.splits if_splits)

lemma annotate_coded:
  assumes "entry_code e = Some c" "annotate C e = Inr r"
  shows "entry_hierarchy r = hierarchy_of C c"
proof -
  from entry_code_SomeD[OF assms(1)] obtain d where
    d: "e = JObj d" "extract_code d = Inr c" "c \<noteq> []" by blast
  with assms(2) have "r = JObj (AList.update ''hierarchy'' (hierarchy_of C c)
                                 (AList.update ''bfCode'' (JStr c) d))"
    by (simp add: annotate_def set_item_def)
  then show ?thesis by (simp add: entry_hierarchy_def dict_get_def update_conv')
qed

lemma hierarchy_json_fields:
  assumes "entry_hierarchy r = hierarchy_json b n"
  shows "hierarchy_field ''broader'' r = json_of_code b"
    and "hierarchy_field ''narrower'' r = JArr (map JStr n)"
  using assms by (simp_all add: hierarchy_field_def hierarchy_json_def dict_get_def)

lemma assign_hierarchy_tables_fields:
  assumes "assign_hierarchy_tables b n e = Inr e'"
  shows "hierarchy_field ''broader'' e' = json_of_code b"
    and "hierarchy_field ''narrower'' e' = JArr (map JStr n)"
proof -
  from assms obtain d where e: "e = JObj d"
    by (cases e) (auto simp: assign_hierarchy_tables_def)
  define d1 where "d1 = (if map_of d ''hierarchy'' = None
                     then AList.update ''hierarchy'' (JObj []) d else d)"
  from assms e obtain hd where hd: "dict_get d1 ''hierarchy'' = JObj hd"
    by (cases "dict_get d1 ''hierarchy''")
       (auto simp: assign_hierarchy_tables_def set_item_def d1_def Let_def)
  define hd2 where "hd2 = AList.update ''broader'' (json_of_code b)
                            (AList.update ''narrower'' (JArr (map JStr n)) hd)"
  from assms e hd have e': "e' = JObj (AList.update ''hierarchy'' (JObj hd2) d1)"
    by (auto simp: assign_hierarchy_tables_def set_item_def d1_def hd2_def Let_def)
  have h: "entry_hierarchy e' = JObj hd2"
    by (simp add: e' entry_hierarchy_def dict_get_def update_conv')
  show "hierarchy_field ''broader'' e' = json_of_code b"
    by (simp add: hierarchy_field_def h dict_get_def hd2_def update_conv')
  show "hierarchy_field ''narrower'' e' = JArr (map JStr n)"
    by (simp add: hierarchy_field_def h dict_get_def hd2_def update_conv')
qed

lemma annotate_tables_coded:
  assumes "entry_code_tables e = Some c" "annotate_tables C e = Inr r"
  shows "hierarchy_field ''broader'' r =
           json_of_code (compute_broader_tables c {s \<in> C. \<not> has_ddash s})"
    and "hierarchy_field ''narrower'' r =
           JArr (map JStr (sorted_list_of_set (children_of_tables C c)))"
proof -
  from entry_code_tables_SomeD[OF assms(1)] obtain d where
    d: "e = JObj d" "extract_code_tables d = Inr (Some c)" "c \<noteq> []" by blast
  with assms have a: "assign_hierarchy_tables (compute_broader_tables c {s \<in> C. \<not> has_ddash s})
                      (sorted_list_of_set (children_of_tables C c))
                      (JObj (AList.update ''bfCode'' (json_of_code (Some c)) d)) = Inr r"
    by (simp add: annotate_tables_def)
  from assign_hierarchy_tables_fields[OF a]
  show "hierarchy_field ''broader'' r =
           json_of_code (compute_broader_tables c {s \<in> C. \<not> has_ddash s})"
    and "hierarchy_field ''narrower'' r =
           JArr (map JStr (sorted_list_of_set (children_of_tables C c)))"
    by simp_all
qed

lemma same_code_a:
  assumes p: "process_file (JArr es) = Inr out" and i: "i < length es"
    and c: "entry_code (es ! i) = Some c"
  shows "entry_hierarchy (out ! i) = hierarchy_of (index_codes es) c"
    and "hierarchy_field ''broader'' (out ! i) =
           json_of_code (compute_broader c {s \<in> index_codes es. \<not> has_dash s})"
    and "\<exists>n. hierarchy_field ''narrower'' (out ! i) = JArr (map JStr n) \<and> sorted n \<and>
             distinct n \<and> set n = children_of (index_codes es) c"
proof -
  from process_file_nth(2)[OF p i] c
  show h: "entry_hierarchy (out ! i) = hierarchy_of (index_codes es) c"
    by (rule annotate_coded[rotated])
  note f = hierarchy_json_fields[OF h[unfolded hierarchy_of_def]]
  from f(1) show "hierarchy_field ''broader'' (out ! i) =
           json_of_code (compute_broader c {s \<in> index_codes es. \<not> has_dash s})" .
  let ?n = "sorted_list_of_set (children_of (index_codes es) c)"
  have "sorted ?n" "distinct ?n" "set ?n = children_of (index_codes es) c"
    using finite_children_of[of es c] by simp_all
  with f(2) show "\<exists>n. hierarchy_field ''narrower'' (out ! i) = JArr (map JStr n) \<and> sorted n \<and>
             distinct n \<and> set n = children_of (index_codes es) c" by blast
qed

lemma same_code_b:
  assumes p: "process_file_tables (JArr es) = Inr out" and i: "i < length es"
    and c: "entry_code_tables (es ! i) = Some c"
  shows "hierarchy_field ''broader'' (out ! i) =
           json_of_code (compute_broader_tables c {s \<in> index_codes_tables es. \<not> has_ddash s})"
    and "hierarchy_field ''narrower'' (out ! i) =
           JArr (map JStr (sorted_list_of_set (children_of_tables (index_codes_tables es) c)))"
    and "\<exists>n. hierarchy_field ''narrower'' (out ! i) = JArr (map JStr n) \<and> sorted n \<and>
             distinct n \<and> set n = children_of_tables (index_codes_tables es) c"
proof -
  note f = annotate_tables_coded[OF c process_file_tables_nth(2)[OF p i]]
  from f show "hierarchy_field ''broader'' (out ! i) =
           json_of_code (compute_broader_tables c {s \<in> index_codes_tables es. \<not> has_ddash s})"
    and "hierarchy_field ''narrower'' (out ! i) =
           JArr (map JStr (sorted_list_of_set (children_of_tables (index_codes_tables es) c)))"
    by simp_all
  let ?n = "sorted_list_of_set (children_of_tables (index_codes_tables es) c)"
  have "sorted ?n" "distinct ?n" "set ?n = children_of_tables (index_codes_tables es) c"
    using finite_children_of_tables[of es c] by simp_all
  with f(2) show "\<exists>n. hierarchy_field ''narrower'' (out ! i) = JArr (map JStr n) \<and> sorted n \<and>
             distinct n \<and> set n = children_of_tables (index_codes_tables es) c" by blast
qed

text \<open>
  C9. The entries of a file that share a code are written out with the same
  \<^verbatim>\<open>broader\<close> and the same \<^verbatim>\<open>narrower\<close>: the parent computed for the code and
  the children of the code as a sorted list without duplicates. The schedule script
  gives them the same \<^verbatim>\<open>hierarchy\<close> as a whole.
\<close>

theorem entries_of_a_code_share_hierarchy:
  "(process_file (JArr es) = Inr out \<and> i < length es \<and> j < length es \<and>
    entry_code (es ! i) = Some c \<and> entry_code (es ! j) = Some c \<longrightarrow>
      entry_hierarchy (out ! i) = entry_hierarchy (out ! j) \<and>
      hierarchy_field ''broader'' (out ! i) = hierarchy_field ''broader'' (out ! j) \<and>
      hierarchy_field ''narrower'' (out ! i) = hierarchy_field ''narrower'' (out ! j) \<and>
      hierarchy_field ''broader'' (out ! i) =
        json_of_code (compute_broader c {s \<in> index_codes es. \<not> has_dash s}) \<and>
      (\<exists>n. hierarchy_field ''narrower'' (out ! i) = JArr (map JStr n) \<and> sorted n \<and>
           distinct n \<and> set n = children_of (index_codes es) c)) \<and>
   (process_file_tables (JArr tes) = Inr tout \<and> k < length tes \<and> l < length tes \<and>
    entry_code_tables (tes ! k) = Some t \<and> entry_code_tables (tes ! l) = Some t \<longrightarrow>
      hierarchy_field ''broader'' (tout ! k) = hierarchy_field ''broader'' (tout ! l) \<and>
      hierarchy_field ''narrower'' (tout ! k) = hierarchy_field ''narrower'' (tout ! l) \<and>
      hierarchy_field ''broader'' (tout ! k) =
        json_of_code (compute_broader_tables t {s \<in> index_codes_tables tes. \<not> has_ddash s}) \<and>
      (\<exists>n. hierarchy_field ''narrower'' (tout ! k) = JArr (map JStr n) \<and> sorted n \<and>
           distinct n \<and> set n = children_of_tables (index_codes_tables tes) t))"
proof (rule conjI)
  show "process_file (JArr es) = Inr out \<and> i < length es \<and> j < length es \<and>
    entry_code (es ! i) = Some c \<and> entry_code (es ! j) = Some c \<longrightarrow>
      entry_hierarchy (out ! i) = entry_hierarchy (out ! j) \<and>
      hierarchy_field ''broader'' (out ! i) = hierarchy_field ''broader'' (out ! j) \<and>
      hierarchy_field ''narrower'' (out ! i) = hierarchy_field ''narrower'' (out ! j) \<and>
      hierarchy_field ''broader'' (out ! i) =
        json_of_code (compute_broader c {s \<in> index_codes es. \<not> has_dash s}) \<and>
      (\<exists>n. hierarchy_field ''narrower'' (out ! i) = JArr (map JStr n) \<and> sorted n \<and>
           distinct n \<and> set n = children_of (index_codes es) c)"
  proof (rule impI)
    assume "process_file (JArr es) = Inr out \<and> i < length es \<and> j < length es \<and>
      entry_code (es ! i) = Some c \<and> entry_code (es ! j) = Some c"
    then have p: "process_file (JArr es) = Inr out" and i: "i < length es" and j: "j < length es"
      and ci: "entry_code (es ! i) = Some c" and cj: "entry_code (es ! j) = Some c"
      by simp_all
    note a = same_code_a[OF p i ci] and b = same_code_a[OF p j cj]
    have 1: "entry_hierarchy (out ! i) = entry_hierarchy (out ! j)"
      by (simp only: a(1) b(1))
    have 2: "hierarchy_field ''broader'' (out ! i) = hierarchy_field ''broader'' (out ! j)"
      by (simp only: hierarchy_field_def 1)
    have 3: "hierarchy_field ''narrower'' (out ! i) = hierarchy_field ''narrower'' (out ! j)"
      by (simp only: hierarchy_field_def 1)
    from 1 2 3 a(2) a(3) show "entry_hierarchy (out ! i) = entry_hierarchy (out ! j) \<and>
      hierarchy_field ''broader'' (out ! i) = hierarchy_field ''broader'' (out ! j) \<and>
      hierarchy_field ''narrower'' (out ! i) = hierarchy_field ''narrower'' (out ! j) \<and>
      hierarchy_field ''broader'' (out ! i) =
        json_of_code (compute_broader c {s \<in> index_codes es. \<not> has_dash s}) \<and>
      (\<exists>n. hierarchy_field ''narrower'' (out ! i) = JArr (map JStr n) \<and> sorted n \<and>
           distinct n \<and> set n = children_of (index_codes es) c)"
      by (intro conjI)
  qed
next
  show "process_file_tables (JArr tes) = Inr tout \<and> k < length tes \<and> l < length tes \<and>
    entry_code_tables (tes ! k) = Some t \<and> entry_code_tables (tes ! l) = Some t \<longrightarrow>
      hierarchy_field ''broader'' (tout ! k) = hierarchy_field ''broader'' (tout ! l) \<and>
      hierarchy_field ''narrower'' (tout ! k) = hierarchy_field ''narrower'' (tout ! l) \<and>
      hierarchy_field ''broader'' (tout ! k) =
        json_of_code (compute_broader_tables t {s \<in> index_codes_tables tes. \<not> has_ddash s}) \<and>
      (\<exists>n. hierarchy_field ''narrower'' (tout ! k) = JArr (map JStr n) \<and> sorted n \<and>
           distinct n \<and> set n = children_of_tables (index_codes_tables tes) t)"
  proof (rule impI)
    assume "process_file_tables (JArr tes) = Inr tout \<and> k < length tes \<and> l < length tes \<and>
      entry_code_tables (tes ! k) = Some t \<and> entry_code_tables (tes ! l) = Some t"
    then have p: "process_file_tables (JArr tes) = Inr tout" and k: "k < length tes"
      and l: "l < length tes" and ck: "entry_code_tables (tes ! k) = Some t"
      and cl: "entry_code_tables (tes ! l) = Some t"
      by simp_all
    note a = same_code_b[OF p k ck] and b = same_code_b[OF p l cl]
    have 1: "hierarchy_field ''broader'' (tout ! k) = hierarchy_field ''broader'' (tout ! l)"
      by (simp only: a(1) b(1))
    have 2: "hierarchy_field ''narrower'' (tout ! k) = hierarchy_field ''narrower'' (tout ! l)"
      by (simp only: a(2) b(2))
    from 1 2 a(1) a(3) show "hierarchy_field ''broader'' (tout ! k) = hierarchy_field ''broader'' (tout ! l) \<and>
      hierarchy_field ''narrower'' (tout ! k) = hierarchy_field ''narrower'' (tout ! l) \<and>
      hierarchy_field ''broader'' (tout ! k) =
        json_of_code (compute_broader_tables t {s \<in> index_codes_tables tes. \<not> has_ddash s}) \<and>
      (\<exists>n. hierarchy_field ''narrower'' (tout ! k) = JArr (map JStr n) \<and> sorted n \<and>
           distinct n \<and> set n = children_of_tables (index_codes_tables tes) t)"
      by (intro conjI)
  qed
qed

theorem entries_of_a_code_share_hierarchy_witness:
  "process_file (JArr [JObj [(''id'', JStr ''Volume1-600'')],
                       JObj [(''id'', JStr ''Volume1-600.1''), (''title'', JStr ''a'')],
                       JObj [(''notation'', JStr ''600.1'')],
                       JObj [(''notation'', JStr ''600.1.2'')]]) =
     Inr [JObj [(''id'', JStr ''Volume1-600''), (''bfCode'', JStr ''600''),
                (''hierarchy'', JObj [(''broader'', JNull), (''narrower'', JArr [JStr ''600.1''])])],
          JObj [(''id'', JStr ''Volume1-600.1''), (''title'', JStr ''a''), (''bfCode'', JStr ''600.1''),
                (''hierarchy'',
                 JObj [(''broader'', JStr ''600''), (''narrower'', JArr [JStr ''600.1.2''])])],
          JObj [(''notation'', JStr ''600.1''), (''bfCode'', JStr ''600.1''),
                (''hierarchy'',
                 JObj [(''broader'', JStr ''600''), (''narrower'', JArr [JStr ''600.1.2''])])],
          JObj [(''notation'', JStr ''600.1.2''), (''bfCode'', JStr ''600.1.2''),
                (''hierarchy'', JObj [(''broader'', JStr ''600.1''), (''narrower'', JArr [])])]] \<and>
   entry_code (JObj [(''id'', JStr ''Volume1-600.1''), (''title'', JStr ''a'')]) = Some ''600.1'' \<and>
   entry_code (JObj [(''notation'', JStr ''600.1'')]) = Some ''600.1'' \<and>
   process_file_tables (JArr [JObj [(''notation'', JStr ''-09'')],
                              JObj [(''notation'', JStr ''-092'')],
                              JObj [(''id'', JStr ''T1:-09''),
                                    (''hierarchy'', JObj [(''note'', JStr ''kept'')])]]) =
     Inr [JObj [(''notation'', JStr ''-09''), (''bfCode'', JStr ''-09''),
                (''hierarchy'', JObj [(''narrower'', JArr [JStr ''-092'']), (''broader'', JNull)])],
          JObj [(''notation'', JStr ''-092''), (''bfCode'', JStr ''-092''),
                (''hierarchy'', JObj [(''narrower'', JArr []), (''broader'', JStr ''-09'')])],
          JObj [(''id'', JStr ''T1:-09''),
                (''hierarchy'',
                 JObj [(''note'', JStr ''kept''), (''narrower'', JArr [JStr ''-092'']),
                       (''broader'', JNull)]),
                (''bfCode'', JStr ''-09'')]] \<and>
   entry_code_tables (JObj [(''notation'', JStr ''-09'')]) = Some ''-09'' \<and>
   entry_code_tables (JObj [(''id'', JStr ''T1:-09''),
                            (''hierarchy'', JObj [(''note'', JStr ''kept'')])]) = Some ''-09'' \<and>
   hierarchy_field ''narrower''
     (JObj [(''id'', JStr ''T1:-09''),
            (''hierarchy'',
             JObj [(''note'', JStr ''kept''), (''narrower'', JArr [JStr ''-092'']),
                   (''broader'', JNull)]),
            (''bfCode'', JStr ''-09'')]) = JArr [JStr ''-092'']"
proof -
  let ?es = "[JObj [(''id'', JStr ''Volume1-600'')],
              JObj [(''id'', JStr ''Volume1-600.1''), (''title'', JStr ''a'')],
              JObj [(''notation'', JStr ''600.1'')],
              JObj [(''notation'', JStr ''600.1.2'')]]"
  let ?out = "[JObj [(''id'', JStr ''Volume1-600''), (''bfCode'', JStr ''600''),
                (''hierarchy'', JObj [(''broader'', JNull), (''narrower'', JArr [JStr ''600.1''])])],
          JObj [(''id'', JStr ''Volume1-600.1''), (''title'', JStr ''a''), (''bfCode'', JStr ''600.1''),
                (''hierarchy'',
                 JObj [(''broader'', JStr ''600''), (''narrower'', JArr [JStr ''600.1.2''])])],
          JObj [(''notation'', JStr ''600.1''), (''bfCode'', JStr ''600.1''),
                (''hierarchy'',
                 JObj [(''broader'', JStr ''600''), (''narrower'', JArr [JStr ''600.1.2''])])],
          JObj [(''notation'', JStr ''600.1.2''), (''bfCode'', JStr ''600.1.2''),
                (''hierarchy'', JObj [(''broader'', JStr ''600.1''), (''narrower'', JArr [])])]]"
  let ?tes = "[JObj [(''notation'', JStr ''-09'')],
               JObj [(''notation'', JStr ''-092'')],
               JObj [(''id'', JStr ''T1:-09''), (''hierarchy'', JObj [(''note'', JStr ''kept'')])]]"
  let ?tout = "[JObj [(''notation'', JStr ''-09''), (''bfCode'', JStr ''-09''),
                (''hierarchy'', JObj [(''narrower'', JArr [JStr ''-092'']), (''broader'', JNull)])],
          JObj [(''notation'', JStr ''-092''), (''bfCode'', JStr ''-092''),
                (''hierarchy'', JObj [(''narrower'', JArr []), (''broader'', JStr ''-09'')])],
          JObj [(''id'', JStr ''T1:-09''),
                (''hierarchy'',
                 JObj [(''note'', JStr ''kept''), (''narrower'', JArr [JStr ''-092'']),
                       (''broader'', JNull)]),
                (''bfCode'', JStr ''-09'')]]"
  have p: "process_file (JArr ?es) = Inr ?out" by code_simp
  have c1: "entry_code (JObj [(''id'', JStr ''Volume1-600.1''), (''title'', JStr ''a'')]) = Some ''600.1''"
    by code_simp
  have c2: "entry_code (JObj [(''notation'', JStr ''600.1'')]) = Some ''600.1''" by code_simp
  have tp: "process_file_tables (JArr ?tes) = Inr ?tout" by code_simp
  have t1: "entry_code_tables (JObj [(''notation'', JStr ''-09'')]) = Some ''-09''" by code_simp
  have t2: "entry_code_tables (JObj [(''id'', JStr ''T1:-09''),
                            (''hierarchy'', JObj [(''note'', JStr ''kept'')])]) = Some ''-09''"
    by code_simp
  have hA: "process_file (JArr ?es) = Inr ?out \<and> 1 < length ?es \<and> 2 < length ?es \<and>
            entry_code (?es ! 1) = Some ''600.1'' \<and> entry_code (?es ! 2) = Some ''600.1''"
    using p c1 c2 by simp
  have hB: "process_file_tables (JArr ?tes) = Inr ?tout \<and> 0 < length ?tes \<and> 2 < length ?tes \<and>
            entry_code_tables (?tes ! 0) = Some ''-09'' \<and> entry_code_tables (?tes ! 2) = Some ''-09''"
    using tp t1 t2 by simp
  note r = entries_of_a_code_share_hierarchy[of ?es ?out 1 2 "''600.1''" ?tes ?tout 0 2 "''-09''"]
  from r[THEN conjunct2, rule_format, OF hB, THEN conjunct2, THEN conjunct1]
  have n: "hierarchy_field ''narrower'' (?tout ! 0) = hierarchy_field ''narrower'' (?tout ! 2)" .
  have "hierarchy_field ''narrower'' (?tout ! 0) = JArr [JStr ''-092'']"
    by (simp add: hierarchy_field_def entry_hierarchy_def dict_get_def)
  with n have v: "hierarchy_field ''narrower'' (?tout ! 2) = JArr [JStr ''-092'']" by simp
  from r[THEN conjunct1, rule_format, OF hA, THEN conjunct1]
  have "entry_hierarchy (?out ! 1) = entry_hierarchy (?out ! 2)" .
  with p c1 c2 tp t1 t2 v show ?thesis by simp
qed

subsection \<open>Processing a file twice\<close>

lemma extract_code_cong:
  "map_of d' ''id'' = map_of d ''id'' \<Longrightarrow> map_of d' ''notation'' = map_of d ''notation'' \<Longrightarrow>
   extract_code d' = extract_code d"
proof -
  assume "map_of d' ''id'' = map_of d ''id''" "map_of d' ''notation'' = map_of d ''notation''"
  then have "dict_get d' ''id'' = dict_get d ''id''"
    "dict_get d' ''notation'' = dict_get d ''notation''"
    by (simp_all add: dict_get_def)
  then show ?thesis
    by (simp add: extract_code_def Let_def split: json.splits option.splits)
qed

lemma extract_code_tables_cong:
  "map_of d' ''id'' = map_of d ''id'' \<Longrightarrow> map_of d' ''notation'' = map_of d ''notation'' \<Longrightarrow>
   extract_code_tables d' = extract_code_tables d"
proof -
  assume a: "map_of d' ''id'' = map_of d ''id''" "map_of d' ''notation'' = map_of d ''notation''"
  then have "dict_get d' ''notation'' = dict_get d ''notation''"
    by (simp add: dict_get_def)
  with a(1) show ?thesis
    by (simp add: extract_code_tables_def Let_def split: json.splits option.splits)
qed

lemma annotate_fix:
  assumes "annotate C e = Inr r"
  shows "entry_code r = entry_code e" and "annotate C r = Inr r"
proof -
  have "entry_code r = entry_code e \<and> annotate C r = Inr r"
  proof (cases "\<exists>d. e = JObj d")
    case False
    then have "annotate C e = Inr e" by (cases e) (auto simp: annotate_def)
    with assms show ?thesis by simp
  next
    case True
    then obtain d where d: "e = JObj d" by blast
    from assms d obtain c where c: "extract_code d = Inr c"
      by (cases "extract_code d") (auto simp: annotate_def)
    let ?d1 = "AList.update ''bfCode'' (JStr c) d"
    show ?thesis
    proof (cases "c = []")
      case True
      with assms d c have r: "r = JObj ?d1" by (simp add: annotate_def)
      have "extract_code ?d1 = extract_code d"
        by (rule extract_code_cong) (simp_all add: update_conv')
      with c have x: "extract_code ?d1 = Inr c" by simp
      from x True r d c show ?thesis by (simp add: entry_code_def annotate_def)
    next
      case False
      let ?d2 = "AList.update ''hierarchy'' (hierarchy_of C c) ?d1"
      from assms d c False have r: "r = JObj ?d2" by (simp add: annotate_def set_item_def)
      have "extract_code ?d2 = extract_code d"
        by (rule extract_code_cong) (simp_all add: update_conv')
      with c have x: "extract_code ?d2 = Inr c" by simp
      have "map_of ?d2 ''bfCode'' = Some (JStr c)" by (simp add: update_conv')
      then have u: "AList.update ''bfCode'' (JStr c) ?d2 = ?d2" by (rule update_triv)
      have "annotate C (JObj ?d2) = Inr (JObj ?d2)"
        using x False by (simp add: annotate_def set_item_def u)
      with x r d c show ?thesis by (simp add: entry_code_def)
    qed
  qed
  then show "entry_code r = entry_code e" and "annotate C r = Inr r" by simp_all
qed

lemma assign_hierarchy_tables_keys:
  assumes "assign_hierarchy_tables b n (JObj d0) = Inr r"
  shows "\<exists>dr. r = JObj dr \<and> (\<forall>k. k \<noteq> ''hierarchy'' \<longrightarrow> map_of dr k = map_of d0 k)"
proof -
  define d1 where "d1 = (if map_of d0 ''hierarchy'' = None
                     then AList.update ''hierarchy'' (JObj []) d0 else d0)"
  from assms obtain hd where hd: "dict_get d1 ''hierarchy'' = JObj hd"
    by (cases "dict_get d1 ''hierarchy''")
       (auto simp: assign_hierarchy_tables_def set_item_def d1_def Let_def)
  define hd2 where "hd2 = AList.update ''broader'' (json_of_code b)
                            (AList.update ''narrower'' (JArr (map JStr n)) hd)"
  from assms hd have r: "r = JObj (AList.update ''hierarchy'' (JObj hd2) d1)"
    by (auto simp: assign_hierarchy_tables_def set_item_def d1_def hd2_def Let_def)
  have "map_of (AList.update ''hierarchy'' (JObj hd2) d1) k = map_of d0 k"
    if "k \<noteq> ''hierarchy''" for k
    using that by (simp add: d1_def update_conv')
  with r show ?thesis by blast
qed

lemma annotate_tables_fix:
  assumes "annotate_tables C e = Inr r"
  shows "entry_code_tables r = entry_code_tables e" and "annotate_tables C r = Inr r"
proof -
  have "entry_code_tables r = entry_code_tables e \<and> annotate_tables C r = Inr r"
  proof (cases "\<exists>d. e = JObj d")
    case False
    then have "annotate_tables C e = Inr e" by (cases e) (auto simp: annotate_tables_def)
    with assms show ?thesis by simp
  next
    case True
    then obtain d where d: "e = JObj d" by blast
    from assms d obtain code where c: "extract_code_tables d = Inr code"
      by (cases "extract_code_tables d") (auto simp: annotate_tables_def)
    let ?v = "json_of_code code"
    let ?d0 = "AList.update ''bfCode'' ?v d"
    have "extract_code_tables ?d0 = extract_code_tables d"
      by (rule extract_code_tables_cong) (simp_all add: update_conv')
    with c have x0: "extract_code_tables ?d0 = Inr code" by simp
    have k: "entry_code_tables (JObj d') = entry_code_tables e"
      if "extract_code_tables d' = Inr code" for d'
      using that c d by (simp add: entry_code_tables_def)
    show ?thesis
    proof (cases "entry_code_tables e")
      case None
      with assms d c have r: "r = JObj ?d0" by (simp add: annotate_tables_def)
      from k[OF x0] None have "entry_code_tables (JObj ?d0) = None" by simp
      with x0 r k[OF x0] show ?thesis by (simp add: annotate_tables_def)
    next
      case (Some t)
      let ?b = "compute_broader_tables t {s \<in> C. \<not> has_ddash s}"
      let ?n = "sorted_list_of_set (children_of_tables C t)"
      from assms d c Some have a: "assign_hierarchy_tables ?b ?n (JObj ?d0) = Inr r"
        by (simp add: annotate_tables_def)
      from assign_hierarchy_tables_keys[OF a] obtain dr where
        dr: "r = JObj dr" "\<And>k. k \<noteq> ''hierarchy'' \<Longrightarrow> map_of dr k = map_of ?d0 k" by blast
      have "extract_code_tables dr = extract_code_tables ?d0"
        by (rule extract_code_tables_cong) (simp_all add: dr(2))
      with x0 have x: "extract_code_tables dr = Inr code" by simp
      have "map_of dr ''bfCode'' = Some ?v"
        using dr(2)[of "''bfCode''"] by (simp add: update_conv')
      then have u: "AList.update ''bfCode'' ?v dr = dr" by (rule update_triv)
      from k[OF x] Some have kr: "entry_code_tables (JObj dr) = Some t" by simp
      have "assign_hierarchy_tables ?b ?n (JObj dr) = Inr (JObj dr)"
        using assign_hierarchy_tables_idem[OF a] dr(1) by simp
      with x kr have "annotate_tables C (JObj dr) = Inr (JObj dr)"
        by (simp add: annotate_tables_def u)
      with kr Some dr(1) show ?thesis by simp
    qed
  qed
  then show "entry_code_tables r = entry_code_tables e" and "annotate_tables C r = Inr r"
    by simp_all
qed

lemma map_filter_cong_all2:
  assumes "list_all2 (\<lambda>x y. f y = f x) xs ys"
  shows "List.map_filter f ys = List.map_filter f xs"
  using assms
  by (induction rule: list_all2_induct) (simp_all split: option.splits)

lemma process_file_again:
  assumes "process_file (JArr es) = Inr out"
  shows "process_file (JArr out) = Inr out"
proof -
  let ?C = "index_codes es"
  from assms have l: "list_all2 (\<lambda>e r. annotate ?C e = Inr r) es out"
    by (simp add: process_file_char)
  then have "list_all2 (\<lambda>e r. entry_code r = entry_code e) es out"
    by (rule list_all2_mono) (rule annotate_fix(1))
  then have C: "index_codes out = ?C"
    by (simp add: index_codes_def map_filter_cong_all2)
  have "annotate ?C r = Inr r" if "r \<in> set out" for r
  proof -
    from that obtain i where i: "i < length out" "out ! i = r" by (auto simp: in_set_conv_nth)
    with l have "annotate ?C (es ! i) = Inr r" by (auto simp: list_all2_conv_all_nth)
    then show ?thesis by (rule annotate_fix(2))
  qed
  then have "list_all2 (\<lambda>e r. annotate ?C e = Inr r) out out"
    by (simp add: list_all2_same)
  then show ?thesis by (simp add: process_file_char C)
qed

lemma process_file_tables_again:
  assumes "process_file_tables (JArr es) = Inr out"
  shows "process_file_tables (JArr out) = Inr out"
proof -
  let ?C = "index_codes_tables es"
  from assms have l: "list_all2 (\<lambda>e r. annotate_tables ?C e = Inr r) es out"
    by (simp add: process_file_tables_char)
  then have "list_all2 (\<lambda>e r. entry_code_tables r = entry_code_tables e) es out"
    by (rule list_all2_mono) (rule annotate_tables_fix(1))
  then have C: "index_codes_tables out = ?C"
    by (simp add: index_codes_tables_def map_filter_cong_all2)
  have "annotate_tables ?C r = Inr r" if "r \<in> set out" for r
  proof -
    from that obtain i where i: "i < length out" "out ! i = r" by (auto simp: in_set_conv_nth)
    with l have "annotate_tables ?C (es ! i) = Inr r" by (auto simp: list_all2_conv_all_nth)
    then show ?thesis by (rule annotate_tables_fix(2))
  qed
  then have "list_all2 (\<lambda>e r. annotate_tables ?C e = Inr r) out out"
    by (simp add: list_all2_same)
  then show ?thesis by (simp add: process_file_tables_char C)
qed

lemma process_file_root: "process_file root = Inr out \<Longrightarrow> \<exists>es. root = JArr es"
  by (cases root) (auto simp: process_file_def)

lemma process_file_tables_root: "process_file_tables root = Inr out \<Longrightarrow> \<exists>es. root = JArr es"
  by (cases root) (auto simp: process_file_tables_def)

text \<open>
  C6. Processing is idempotent: when a file is processed without failure, processing the
  entries that were written out succeeds and writes the same entries again, so every
  \<^verbatim>\<open>broader\<close> and \<^verbatim>\<open>narrower\<close> (and every other field) is as after the first
  run. The extraction reads \<^verbatim>\<open>id\<close> and \<^verbatim>\<open>notation\<close> only, which the first run
  leaves alone.
\<close>

theorem process_file_idempotent:
  "(process_file root = Inr out \<longrightarrow> process_file (JArr out) = Inr out) \<and>
   (process_file_tables troot = Inr tout \<longrightarrow> process_file_tables (JArr tout) = Inr tout)"
proof (rule conjI)
  show "process_file root = Inr out \<longrightarrow> process_file (JArr out) = Inr out"
  proof (rule impI)
    assume a: "process_file root = Inr out"
    from process_file_root[OF a] obtain es where "root = JArr es" by blast
    with a show "process_file (JArr out) = Inr out" by (simp add: process_file_again)
  qed
next
  show "process_file_tables troot = Inr tout \<longrightarrow> process_file_tables (JArr tout) = Inr tout"
  proof (rule impI)
    assume a: "process_file_tables troot = Inr tout"
    from process_file_tables_root[OF a] obtain es where "troot = JArr es" by blast
    with a show "process_file_tables (JArr tout) = Inr tout"
      by (simp add: process_file_tables_again)
  qed
qed


theorem process_file_idempotent_witness:
  "process_file (JArr [JObj [(''id'', JStr ''Volume1-004'')], JObj [(''id'', JStr ''Volume1-005'')],
                       JObj [(''notation'', JStr ''004-006'')], JObj [(''title'', JStr ''x'')]]) =
     Inr [JObj [(''id'', JStr ''Volume1-004''), (''bfCode'', JStr ''004''),
                (''hierarchy'', JObj [(''broader'', JNull), (''narrower'', JArr [JStr ''004-006''])])],
          JObj [(''id'', JStr ''Volume1-005''), (''bfCode'', JStr ''005''),
                (''hierarchy'', JObj [(''broader'', JNull), (''narrower'', JArr [])])],
          JObj [(''notation'', JStr ''004-006''), (''bfCode'', JStr ''004-006''),
                (''hierarchy'',
                 JObj [(''broader'', JStr ''004''),
                       (''narrower'', JArr [JStr ''004'', JStr ''005''])])],
          JObj [(''title'', JStr ''x''), (''bfCode'', JStr [])]] \<and>
   process_file (JArr
         [JObj [(''id'', JStr ''Volume1-004''), (''bfCode'', JStr ''004''),
                (''hierarchy'', JObj [(''broader'', JNull), (''narrower'', JArr [JStr ''004-006''])])],
          JObj [(''id'', JStr ''Volume1-005''), (''bfCode'', JStr ''005''),
                (''hierarchy'', JObj [(''broader'', JNull), (''narrower'', JArr [])])],
          JObj [(''notation'', JStr ''004-006''), (''bfCode'', JStr ''004-006''),
                (''hierarchy'',
                 JObj [(''broader'', JStr ''004''),
                       (''narrower'', JArr [JStr ''004'', JStr ''005''])])],
          JObj [(''title'', JStr ''x''), (''bfCode'', JStr [])]]) =
     Inr [JObj [(''id'', JStr ''Volume1-004''), (''bfCode'', JStr ''004''),
                (''hierarchy'', JObj [(''broader'', JNull), (''narrower'', JArr [JStr ''004-006''])])],
          JObj [(''id'', JStr ''Volume1-005''), (''bfCode'', JStr ''005''),
                (''hierarchy'', JObj [(''broader'', JNull), (''narrower'', JArr [])])],
          JObj [(''notation'', JStr ''004-006''), (''bfCode'', JStr ''004-006''),
                (''hierarchy'',
                 JObj [(''broader'', JStr ''004''),
                       (''narrower'', JArr [JStr ''004'', JStr ''005''])])],
          JObj [(''title'', JStr ''x''), (''bfCode'', JStr [])]] \<and>
   process_file_tables (JArr [JObj [(''notation'', JStr ''-09'')],
                              JObj [(''id'', JStr ''T1:-092''),
                                    (''hierarchy'', JObj [(''note'', JStr ''kept'')])]]) =
     Inr [JObj [(''notation'', JStr ''-09''), (''bfCode'', JStr ''-09''),
                (''hierarchy'', JObj [(''narrower'', JArr [JStr ''-092'']), (''broader'', JNull)])],
          JObj [(''id'', JStr ''T1:-092''),
                (''hierarchy'',
                 JObj [(''note'', JStr ''kept''), (''narrower'', JArr []),
                       (''broader'', JStr ''-09'')]),
                (''bfCode'', JStr ''-092'')]] \<and>
   process_file_tables (JArr
         [JObj [(''notation'', JStr ''-09''), (''bfCode'', JStr ''-09''),
                (''hierarchy'', JObj [(''narrower'', JArr [JStr ''-092'']), (''broader'', JNull)])],
          JObj [(''id'', JStr ''T1:-092''),
                (''hierarchy'',
                 JObj [(''note'', JStr ''kept''), (''narrower'', JArr []),
                       (''broader'', JStr ''-09'')]),
                (''bfCode'', JStr ''-092'')]]) =
     Inr [JObj [(''notation'', JStr ''-09''), (''bfCode'', JStr ''-09''),
                (''hierarchy'', JObj [(''narrower'', JArr [JStr ''-092'']), (''broader'', JNull)])],
          JObj [(''id'', JStr ''T1:-092''),
                (''hierarchy'',
                 JObj [(''note'', JStr ''kept''), (''narrower'', JArr []),
                       (''broader'', JStr ''-09'')]),
                (''bfCode'', JStr ''-092'')]]"
proof -
  let ?root = "JArr [JObj [(''id'', JStr ''Volume1-004'')], JObj [(''id'', JStr ''Volume1-005'')],
                     JObj [(''notation'', JStr ''004-006'')], JObj [(''title'', JStr ''x'')]]"
  let ?out = "[JObj [(''id'', JStr ''Volume1-004''), (''bfCode'', JStr ''004''),
                (''hierarchy'', JObj [(''broader'', JNull), (''narrower'', JArr [JStr ''004-006''])])],
          JObj [(''id'', JStr ''Volume1-005''), (''bfCode'', JStr ''005''),
                (''hierarchy'', JObj [(''broader'', JNull), (''narrower'', JArr [])])],
          JObj [(''notation'', JStr ''004-006''), (''bfCode'', JStr ''004-006''),
                (''hierarchy'',
                 JObj [(''broader'', JStr ''004''),
                       (''narrower'', JArr [JStr ''004'', JStr ''005''])])],
          JObj [(''title'', JStr ''x''), (''bfCode'', JStr [])]]"
  let ?troot = "JArr [JObj [(''notation'', JStr ''-09'')],
                      JObj [(''id'', JStr ''T1:-092''),
                            (''hierarchy'', JObj [(''note'', JStr ''kept'')])]]"
  let ?tout = "[JObj [(''notation'', JStr ''-09''), (''bfCode'', JStr ''-09''),
                (''hierarchy'', JObj [(''narrower'', JArr [JStr ''-092'']), (''broader'', JNull)])],
          JObj [(''id'', JStr ''T1:-092''),
                (''hierarchy'',
                 JObj [(''note'', JStr ''kept''), (''narrower'', JArr []),
                       (''broader'', JStr ''-09'')]),
                (''bfCode'', JStr ''-092'')]]"
  have p: "process_file ?root = Inr ?out" by code_simp
  have tp: "process_file_tables ?troot = Inr ?tout" by code_simp
  note r = process_file_idempotent[of ?root ?out ?troot ?tout]
  from r[THEN conjunct1, rule_format, OF p]
  have 1: "process_file (JArr ?out) = Inr ?out" .
  from r[THEN conjunct2, rule_format, OF tp]
  have 2: "process_file_tables (JArr ?tout) = Inr ?tout" .
  from p tp 1 2 show ?thesis by (intro conjI)
qed

subsection \<open>The structured range of the specification\<close>

text \<open>
  C5. Over the codes 026, 026.0001, 026.0002, 026.0003 and 026.0001-026.0005 the range
  code has the three point codes 026.0001 to 026.0003 as its children and 026 as its
  parent, and a file with one entry for each of these codes is written out so.
\<close>

theorem structured_range_example:
  "children_of {''026'', ''026.0001'', ''026.0002'', ''026.0003'', ''026.0001-026.0005''}
     ''026.0001-026.0005'' = {''026.0001'', ''026.0002'', ''026.0003''} \<and>
   hierarchy_of {''026'', ''026.0001'', ''026.0002'', ''026.0003'', ''026.0001-026.0005''}
     ''026.0001-026.0005'' =
     hierarchy_json (Some ''026'') [''026.0001'', ''026.0002'', ''026.0003''] \<and>
   process_file (JArr [JObj [(''id'', JStr ''Volume1-026'')],
                       JObj [(''id'', JStr ''Volume1-026.0001'')],
                       JObj [(''id'', JStr ''Volume1-026.0002'')],
                       JObj [(''id'', JStr ''Volume1-026.0003'')],
                       JObj [(''id'', JStr ''Volume1-026.0001-026.0005'')]]) =
     Inr [JObj [(''id'', JStr ''Volume1-026''), (''bfCode'', JStr ''026''),
                (''hierarchy'',
                 JObj [(''broader'', JNull),
                       (''narrower'',
                        JArr [JStr ''026.0001'', JStr ''026.0001-026.0005'', JStr ''026.0002'',
                              JStr ''026.0003''])])],
          JObj [(''id'', JStr ''Volume1-026.0001''), (''bfCode'', JStr ''026.0001''),
                (''hierarchy'', JObj [(''broader'', JStr ''026''), (''narrower'', JArr [])])],
          JObj [(''id'', JStr ''Volume1-026.0002''), (''bfCode'', JStr ''026.0002''),
                (''hierarchy'', JObj [(''broader'', JStr ''026''), (''narrower'', JArr [])])],
          JObj [(''id'', JStr ''Volume1-026.0003''), (''bfCode'', JStr ''026.0003''),
                (''hierarchy'', JObj [(''broader'', JStr ''026''), (''narrower'', JArr [])])],
          JObj [(''id'', JStr ''Volume1-026.0001-026.0005''),
                (''bfCode'', JStr ''026.0001-026.0005''),
                (''hierarchy'',
                 JObj [(''broader'', JStr ''026''),
                       (''narrower'',
                        JArr [JStr ''026.0001'', JStr ''026.0002'', JStr ''026.0003''])])]]"
  by code_simp

subsection \<open>No code among its own children\<close>

lemma annotate_succeeds:
  assumes "\<And>d. e = JObj d \<Longrightarrow> \<exists>k. extract_code d = Inr k"
  shows "\<exists>r. annotate C e = Inr r"
proof (cases e)
  case (JObj d)
  with assms obtain k where "extract_code d = Inr k" by blast
  with JObj show ?thesis by (simp add: annotate_def set_item_def)
qed (simp_all add: annotate_def)

lemma process_file_succeeds:
  assumes "\<forall>e\<in>set es. \<forall>d. e = JObj d \<longrightarrow> (\<exists>k. extract_code d = Inr k)"
  shows "\<exists>out. process_file (JArr es) = Inr out"
proof -
  have "\<exists>r. annotate (index_codes es) e = Inr r" if "e \<in> set es" for e
    using assms that by (intro annotate_succeeds) blast
  then obtain out where "list_all2 (\<lambda>e r. annotate (index_codes es) e = Inr r) es out"
    using list_all2_exists[of es "\<lambda>e r. annotate (index_codes es) e = Inr r"] by blast
  then show ?thesis by (auto simp: process_file_char)
qed

lemma narrower_list_a:
  assumes "process_file (JArr es) = Inr out" "i < length es" "entry_code (es ! i) = Some c"
    "hierarchy_field ''narrower'' (out ! i) = JArr (map JStr n)"
  shows "set n = children_of (index_codes es) c"
proof -
  from same_code_a(3)[OF assms(1-3)] obtain m where
    m: "hierarchy_field ''narrower'' (out ! i) = JArr (map JStr m)"
       "set m = children_of (index_codes es) c" by blast
  from m(1) assms(4) have "map JStr n = map JStr m" by simp
  then have "n = m" by (rule map_injective) (simp add: inj_def)
  with m(2) show ?thesis by simp
qed

lemma narrower_list_b:
  assumes "process_file_tables (JArr es) = Inr out" "i < length es"
    "entry_code_tables (es ! i) = Some c"
    "hierarchy_field ''narrower'' (out ! i) = JArr (map JStr n)"
  shows "set n = children_of_tables (index_codes_tables es) c"
proof -
  from same_code_b(3)[OF assms(1-3)] obtain m where
    m: "hierarchy_field ''narrower'' (out ! i) = JArr (map JStr m)"
       "set m = children_of_tables (index_codes_tables es) c" by blast
  from m(1) assms(4) have "map JStr n = map JStr m" by simp
  then have "n = m" by (rule map_injective) (simp add: inj_def)
  with m(2) show ?thesis by simp
qed

lemma child_map_not_self_a:
  assumes "distinct codes"
  shows "\<exists>m. build_child_map codes = Inr m \<and> map fst m = codes \<and>
             (\<forall>c s. map_of m c = Some s \<longrightarrow> c \<notin> s)"
proof -
  from build_child_map_char[OF assms] obtain m where
    m: "build_child_map codes = Inr m" "map fst m = codes"
       "\<And>k. map_of m k = (if k \<in> set codes then Some (children_of (set codes) k) else None)"
    by blast
  have "c \<notin> s" if "map_of m c = Some s" for c s
    using that m(3)[of c] children_of_not_self[of c "set codes"] by (auto split: if_splits)
  with m(1,2) show ?thesis by blast
qed

lemma child_map_not_self_b:
  assumes "distinct codes"
  shows "\<exists>m. build_child_map_tables codes = Inr m \<and> map fst m = codes \<and>
             (\<forall>c s. map_of m c = Some s \<longrightarrow> c \<notin> s)"
proof -
  from build_child_map_tables_char[OF assms] obtain m where
    m: "build_child_map_tables codes = Inr m" "map fst m = codes"
       "\<And>k. map_of m k =
          (if k \<in> set codes then Some (children_of_tables (set codes) k) else None)"
    by blast
  have "c \<notin> s" if "map_of m c = Some s" for c s
    using that m(3)[of c] children_of_tables_not_self[of c "set codes"]
    by (auto split: if_splits)
  with m(1,2) show ?thesis by blast
qed

text \<open>
  C8. The child map of either script, built from the immediate children, the range
  expansion and the range attachment over the distinct codes of an index, never maps a
  code to a set that contains the code itself; and in a file that was processed, the
  \<^verbatim>\<open>narrower\<close> written to an entry of the index never lists the code of the entry.
\<close>

theorem no_code_is_its_own_child:
  "(distinct codes \<longrightarrow>
      (\<exists>m. build_child_map codes = Inr m \<and> map fst m = codes \<and>
           (\<forall>c s. map_of m c = Some s \<longrightarrow> c \<notin> s))) \<and>
   (process_file (JArr es) = Inr out \<and> i < length es \<and> entry_code (es ! i) = Some c \<and>
    hierarchy_field ''narrower'' (out ! i) = JArr (map JStr n) \<longrightarrow> c \<notin> set n) \<and>
   (distinct tcodes \<longrightarrow>
      (\<exists>m. build_child_map_tables tcodes = Inr m \<and> map fst m = tcodes \<and>
           (\<forall>c s. map_of m c = Some s \<longrightarrow> c \<notin> s))) \<and>
   (process_file_tables (JArr tes) = Inr tout \<and> j < length tes \<and>
    entry_code_tables (tes ! j) = Some t \<and>
    hierarchy_field ''narrower'' (tout ! j) = JArr (map JStr tn) \<longrightarrow> t \<notin> set tn)"
proof (intro conjI)
  show "distinct codes \<longrightarrow>
      (\<exists>m. build_child_map codes = Inr m \<and> map fst m = codes \<and>
           (\<forall>c s. map_of m c = Some s \<longrightarrow> c \<notin> s))"
    by (rule impI) (rule child_map_not_self_a)
  show "distinct tcodes \<longrightarrow>
      (\<exists>m. build_child_map_tables tcodes = Inr m \<and> map fst m = tcodes \<and>
           (\<forall>c s. map_of m c = Some s \<longrightarrow> c \<notin> s))"
    by (rule impI) (rule child_map_not_self_b)
  show "process_file (JArr es) = Inr out \<and> i < length es \<and> entry_code (es ! i) = Some c \<and>
    hierarchy_field ''narrower'' (out ! i) = JArr (map JStr n) \<longrightarrow> c \<notin> set n"
  proof (rule impI)
    assume "process_file (JArr es) = Inr out \<and> i < length es \<and> entry_code (es ! i) = Some c \<and>
      hierarchy_field ''narrower'' (out ! i) = JArr (map JStr n)"
    then have "set n = children_of (index_codes es) c"
      using narrower_list_a[of es out i c n] by simp
    then show "c \<notin> set n" by (simp add: children_of_not_self)
  qed
  show "process_file_tables (JArr tes) = Inr tout \<and> j < length tes \<and>
    entry_code_tables (tes ! j) = Some t \<and>
    hierarchy_field ''narrower'' (tout ! j) = JArr (map JStr tn) \<longrightarrow> t \<notin> set tn"
  proof (rule impI)
    assume "process_file_tables (JArr tes) = Inr tout \<and> j < length tes \<and>
      entry_code_tables (tes ! j) = Some t \<and>
      hierarchy_field ''narrower'' (tout ! j) = JArr (map JStr tn)"
    then have "set tn = children_of_tables (index_codes_tables tes) t"
      using narrower_list_b[of tes tout j t tn] by simp
    then show "t \<notin> set tn" by (simp add: children_of_tables_not_self)
  qed
qed


theorem no_code_is_its_own_child_witness:
  "distinct [''004'', ''005'', ''006'', ''004-006''] \<and>
   (\<exists>m. build_child_map [''004'', ''005'', ''006'', ''004-006''] = Inr m \<and>
        map fst m = [''004'', ''005'', ''006'', ''004-006''] \<and>
        (\<forall>c s. map_of m c = Some s \<longrightarrow> c \<notin> s)) \<and>
   process_file (JArr [JObj [(''id'', JStr ''Volume1-004'')], JObj [(''id'', JStr ''Volume1-005'')],
                       JObj [(''notation'', JStr ''004-006'')]]) =
     Inr [JObj [(''id'', JStr ''Volume1-004''), (''bfCode'', JStr ''004''),
                (''hierarchy'', JObj [(''broader'', JNull), (''narrower'', JArr [JStr ''004-006''])])],
          JObj [(''id'', JStr ''Volume1-005''), (''bfCode'', JStr ''005''),
                (''hierarchy'', JObj [(''broader'', JNull), (''narrower'', JArr [])])],
          JObj [(''notation'', JStr ''004-006''), (''bfCode'', JStr ''004-006''),
                (''hierarchy'',
                 JObj [(''broader'', JStr ''004''),
                       (''narrower'', JArr [JStr ''004'', JStr ''005''])])]] \<and>
   entry_code (JObj [(''notation'', JStr ''004-006'')]) = Some ''004-006'' \<and>
   ''004-006'' \<notin> set [''004'', ''005''] \<and>
   distinct [''-09'', ''-092'', ''-001'', ''-002'', ''-001--002''] \<and>
   (\<exists>m. build_child_map_tables [''-09'', ''-092'', ''-001'', ''-002'', ''-001--002''] = Inr m \<and>
        map fst m = [''-09'', ''-092'', ''-001'', ''-002'', ''-001--002''] \<and>
        (\<forall>c s. map_of m c = Some s \<longrightarrow> c \<notin> s)) \<and>
   process_file_tables (JArr [JObj [(''notation'', JStr ''-09'')],
                              JObj [(''notation'', JStr ''-092'')]]) =
     Inr [JObj [(''notation'', JStr ''-09''), (''bfCode'', JStr ''-09''),
                (''hierarchy'', JObj [(''narrower'', JArr [JStr ''-092'']), (''broader'', JNull)])],
          JObj [(''notation'', JStr ''-092''), (''bfCode'', JStr ''-092''),
                (''hierarchy'', JObj [(''narrower'', JArr []), (''broader'', JStr ''-09'')])]] \<and>
   entry_code_tables (JObj [(''notation'', JStr ''-09'')]) = Some ''-09'' \<and>
   ''-09'' \<notin> set [''-092'']"
proof -
  let ?codes = "[''004'', ''005'', ''006'', ''004-006'']"
  let ?tcodes = "[''-09'', ''-092'', ''-001'', ''-002'', ''-001--002'']"
  let ?es = "[JObj [(''id'', JStr ''Volume1-004'')], JObj [(''id'', JStr ''Volume1-005'')],
              JObj [(''notation'', JStr ''004-006'')]]"
  let ?out = "[JObj [(''id'', JStr ''Volume1-004''), (''bfCode'', JStr ''004''),
                (''hierarchy'', JObj [(''broader'', JNull), (''narrower'', JArr [JStr ''004-006''])])],
          JObj [(''id'', JStr ''Volume1-005''), (''bfCode'', JStr ''005''),
                (''hierarchy'', JObj [(''broader'', JNull), (''narrower'', JArr [])])],
          JObj [(''notation'', JStr ''004-006''), (''bfCode'', JStr ''004-006''),
                (''hierarchy'',
                 JObj [(''broader'', JStr ''004''),
                       (''narrower'', JArr [JStr ''004'', JStr ''005''])])]]"
  let ?tes = "[JObj [(''notation'', JStr ''-09'')], JObj [(''notation'', JStr ''-092'')]]"
  let ?tout = "[JObj [(''notation'', JStr ''-09''), (''bfCode'', JStr ''-09''),
                (''hierarchy'', JObj [(''narrower'', JArr [JStr ''-092'']), (''broader'', JNull)])],
          JObj [(''notation'', JStr ''-092''), (''bfCode'', JStr ''-092''),
                (''hierarchy'', JObj [(''narrower'', JArr []), (''broader'', JStr ''-09'')])]]"
  have d1: "distinct ?codes" by simp
  have d2: "distinct ?tcodes" by simp
  have p: "process_file (JArr ?es) = Inr ?out" by code_simp
  have c: "entry_code (JObj [(''notation'', JStr ''004-006'')]) = Some ''004-006''" by code_simp
  have tp: "process_file_tables (JArr ?tes) = Inr ?tout" by code_simp
  have tc: "entry_code_tables (JObj [(''notation'', JStr ''-09'')]) = Some ''-09''" by code_simp
  have hA: "process_file (JArr ?es) = Inr ?out \<and> 2 < length ?es \<and>
            entry_code (?es ! 2) = Some ''004-006'' \<and>
            hierarchy_field ''narrower'' (?out ! 2) = JArr (map JStr [''004'', ''005''])"
    using p c by (simp add: hierarchy_field_def entry_hierarchy_def dict_get_def)
  have hB: "process_file_tables (JArr ?tes) = Inr ?tout \<and> 0 < length ?tes \<and>
            entry_code_tables (?tes ! 0) = Some ''-09'' \<and>
            hierarchy_field ''narrower'' (?tout ! 0) = JArr (map JStr [''-092''])"
    using tp tc by (simp add: hierarchy_field_def entry_hierarchy_def dict_get_def)
  note r = no_code_is_its_own_child[of ?codes ?es ?out 2 "''004-006''" "[''004'', ''005'']"
      ?tcodes ?tes ?tout 0 "''-09''" "[''-092'']"]
  from r[THEN conjunct1, rule_format, OF d1]
  have 1: "\<exists>m. build_child_map ?codes = Inr m \<and> map fst m = ?codes \<and>
        (\<forall>c s. map_of m c = Some s \<longrightarrow> c \<notin> s)" .
  from r[THEN conjunct2, THEN conjunct1, rule_format, OF hA]
  have 2: "''004-006'' \<notin> set [''004'', ''005'']" .
  from r[THEN conjunct2, THEN conjunct2, THEN conjunct1, rule_format, OF d2]
  have 3: "\<exists>m. build_child_map_tables ?tcodes = Inr m \<and> map fst m = ?tcodes \<and>
        (\<forall>c s. map_of m c = Some s \<longrightarrow> c \<notin> s)" .
  from r[THEN conjunct2, THEN conjunct2, THEN conjunct2, rule_format, OF hB]
  have 4: "''-09'' \<notin> set [''-092'']" .
  from d1 1 p c 2 d2 3 tp tc 4 show ?thesis by (intro conjI)
qed

subsection \<open>Codes that do not split into two bounds\<close>

lemma malformed_hierarchy:
  assumes "has_dash c" "split_range c = None"
  shows "hierarchy_of C c = hierarchy_json None []"
proof -
  have b: "compute_broader c S' = None" for S'
    using split_range_None_parents[OF assms] by simp
  show ?thesis by (simp add: hierarchy_of_def malformed_no_children[OF assms] b)
qed

lemma malformed_in_file:
  assumes m: "has_dash c" "split_range c = None"
    and i: "i < length es" "entry_code (es ! i) = Some c"
    and ok: "\<forall>e\<in>set es. \<forall>d. e = JObj d \<longrightarrow> (\<exists>k. extract_code d = Inr k)"
  shows "\<exists>out. process_file (JArr es) = Inr out \<and>
           entry_hierarchy (out ! i) = hierarchy_json None [] \<and>
           (\<forall>j n. j < length es \<and> entry_code (es ! j) \<noteq> None \<and>
                  hierarchy_field ''narrower'' (out ! j) = JArr (map JStr n) \<longrightarrow> c \<notin> set n)"
proof -
  from process_file_succeeds[OF ok] obtain out where p: "process_file (JArr es) = Inr out"
    by blast
  have 1: "entry_hierarchy (out ! i) = hierarchy_json None []"
    using same_code_a(1)[OF p i] by (simp add: malformed_hierarchy[OF m])
  have 2: "c \<notin> set n"
    if "j < length es" "entry_code (es ! j) \<noteq> None"
       "hierarchy_field ''narrower'' (out ! j) = JArr (map JStr n)" for j n
  proof -
    from that(2) obtain c' where c': "entry_code (es ! j) = Some c'" by blast
    from narrower_list_a[OF p that(1) c' that(3)]
    have "set n = children_of (index_codes es) c'" .
    then show ?thesis by (simp add: malformed_not_a_child[OF m])
  qed
  from p 1 2 show ?thesis by blast
qed

text \<open>
  C10. A Dialect A code that contains a dash and does not split into exactly two parts
  is a range code with no parent, no attachment parent and no range children. In the
  child map of an index that holds it, it has the empty set and is in no set. A file with
  an entry that carries it is processed without failure when every extraction succeeds:
  the entry is written out with a null \<^verbatim>\<open>broader\<close> and an empty \<^verbatim>\<open>narrower\<close>,
  and the \<^verbatim>\<open>narrower\<close> written to an entry of the index never lists the code.
\<close>

theorem malformed_range_is_isolated:
  assumes "has_dash c" "split_range c = None"
  shows "compute_broader c S = None \<and> range_parent c S = None \<and>
         expand_range_children c S = {} \<and>
         (distinct codes \<and> c \<in> set codes \<longrightarrow>
            c \<in> set (filter has_dash codes) \<and>
            (\<exists>m. build_child_map codes = Inr m \<and> map_of m c = Some {} \<and>
                 (\<forall>p s. map_of m p = Some s \<longrightarrow> c \<notin> s))) \<and>
         (i < length es \<and> entry_code (es ! i) = Some c \<and>
          (\<forall>e\<in>set es. \<forall>d. e = JObj d \<longrightarrow> (\<exists>k. extract_code d = Inr k)) \<longrightarrow>
            (\<exists>out. process_file (JArr es) = Inr out \<and>
                   entry_hierarchy (out ! i) = hierarchy_json None [] \<and>
                   (\<forall>j n. j < length es \<and> entry_code (es ! j) \<noteq> None \<and>
                          hierarchy_field ''narrower'' (out ! j) = JArr (map JStr n)
                          \<longrightarrow> c \<notin> set n)))"
proof (intro conjI)
  show "compute_broader c S = None" "range_parent c S = None"
    using split_range_None_parents[OF assms] by simp_all
  show "expand_range_children c S = {}"
    using assms by (simp add: expand_range_children_def)
  show "distinct codes \<and> c \<in> set codes \<longrightarrow>
            c \<in> set (filter has_dash codes) \<and>
            (\<exists>m. build_child_map codes = Inr m \<and> map_of m c = Some {} \<and>
                 (\<forall>p s. map_of m p = Some s \<longrightarrow> c \<notin> s))"
  proof (rule impI)
    assume a: "distinct codes \<and> c \<in> set codes"
    then have f: "c \<in> set (filter has_dash codes)" using assms(1) by simp
    from a build_child_map_char[of codes] obtain m where
      m: "build_child_map codes = Inr m"
         "\<And>k. map_of m k = (if k \<in> set codes then Some (children_of (set codes) k) else None)"
      by blast
    have 1: "map_of m c = Some {}"
      using a m(2)[of c] malformed_no_children[OF assms] by simp
    have 2: "c \<notin> s" if "map_of m p = Some s" for p s
      using that m(2)[of p] malformed_not_a_child[OF assms, of "set codes" p]
      by (auto split: if_splits)
    from m(1) 1 2 have "\<exists>m. build_child_map codes = Inr m \<and> map_of m c = Some {} \<and>
                 (\<forall>p s. map_of m p = Some s \<longrightarrow> c \<notin> s)" by blast
    with f show "c \<in> set (filter has_dash codes) \<and>
            (\<exists>m. build_child_map codes = Inr m \<and> map_of m c = Some {} \<and>
                 (\<forall>p s. map_of m p = Some s \<longrightarrow> c \<notin> s))" by (rule conjI)
  qed
  show "i < length es \<and> entry_code (es ! i) = Some c \<and>
          (\<forall>e\<in>set es. \<forall>d. e = JObj d \<longrightarrow> (\<exists>k. extract_code d = Inr k)) \<longrightarrow>
            (\<exists>out. process_file (JArr es) = Inr out \<and>
                   entry_hierarchy (out ! i) = hierarchy_json None [] \<and>
                   (\<forall>j n. j < length es \<and> entry_code (es ! j) \<noteq> None \<and>
                          hierarchy_field ''narrower'' (out ! j) = JArr (map JStr n)
                          \<longrightarrow> c \<notin> set n))"
  proof (rule impI)
    assume a: "i < length es \<and> entry_code (es ! i) = Some c \<and>
          (\<forall>e\<in>set es. \<forall>d. e = JObj d \<longrightarrow> (\<exists>k. extract_code d = Inr k))"
    then have i: "i < length es" "entry_code (es ! i) = Some c"
      and ok: "\<forall>e\<in>set es. \<forall>d. e = JObj d \<longrightarrow> (\<exists>k. extract_code d = Inr k)"
      by simp_all
    show "\<exists>out. process_file (JArr es) = Inr out \<and>
                   entry_hierarchy (out ! i) = hierarchy_json None [] \<and>
                   (\<forall>j n. j < length es \<and> entry_code (es ! j) \<noteq> None \<and>
                          hierarchy_field ''narrower'' (out ! j) = JArr (map JStr n)
                          \<longrightarrow> c \<notin> set n)"
      by (rule malformed_in_file[OF assms i ok])
  qed
qed


theorem malformed_range_is_isolated_witness:
  "has_dash ''004-006-008'' \<and> split_range ''004-006-008'' = None \<and>
   compute_broader ''004-006-008'' {''004'', ''006''} = None \<and>
   range_parent ''004-006-008'' {''004'', ''006''} = None \<and>
   expand_range_children ''004-006-008'' {''004'', ''006''} = {} \<and>
   distinct [''004'', ''006'', ''004-006-008''] \<and>
   ''004-006-008'' \<in> set [''004'', ''006'', ''004-006-008''] \<and>
   (\<exists>m. build_child_map [''004'', ''006'', ''004-006-008''] = Inr m \<and>
        map_of m ''004-006-008'' = Some {} \<and>
        (\<forall>p s. map_of m p = Some s \<longrightarrow> ''004-006-008'' \<notin> s)) \<and>
   entry_code (JObj [(''id'', JStr ''Volume1-004-006-008'')]) = Some ''004-006-008'' \<and>
   (\<exists>out. process_file (JArr [JObj [(''id'', JStr ''Volume1-004'')],
                              JObj [(''id'', JStr ''Volume1-006'')],
                              JObj [(''id'', JStr ''Volume1-004-006-008'')]]) = Inr out \<and>
          entry_hierarchy (out ! 2) = hierarchy_json None []) \<and>
   process_file (JArr [JObj [(''id'', JStr ''Volume1-004'')],
                       JObj [(''id'', JStr ''Volume1-006'')],
                       JObj [(''id'', JStr ''Volume1-004-006-008'')]]) =
     Inr [JObj [(''id'', JStr ''Volume1-004''), (''bfCode'', JStr ''004''),
                (''hierarchy'', JObj [(''broader'', JNull), (''narrower'', JArr [])])],
          JObj [(''id'', JStr ''Volume1-006''), (''bfCode'', JStr ''006''),
                (''hierarchy'', JObj [(''broader'', JNull), (''narrower'', JArr [])])],
          JObj [(''id'', JStr ''Volume1-004-006-008''), (''bfCode'', JStr ''004-006-008''),
                (''hierarchy'', JObj [(''broader'', JNull), (''narrower'', JArr [])])]]"
proof -
  let ?es = "[JObj [(''id'', JStr ''Volume1-004'')], JObj [(''id'', JStr ''Volume1-006'')],
              JObj [(''id'', JStr ''Volume1-004-006-008'')]]"
  have h: "has_dash ''004-006-008''" "split_range ''004-006-008'' = None" by code_simp+
  have d: "distinct [''004'', ''006'', ''004-006-008''] \<and>
           ''004-006-008'' \<in> set [''004'', ''006'', ''004-006-008'']" by simp
  have c: "entry_code (JObj [(''id'', JStr ''Volume1-004-006-008'')]) = Some ''004-006-008''"
    by code_simp
  have x: "extract_code [(''id'', JStr ''Volume1-004'')] = Inr ''004''"
    "extract_code [(''id'', JStr ''Volume1-006'')] = Inr ''006''"
    "extract_code [(''id'', JStr ''Volume1-004-006-008'')] = Inr ''004-006-008''"
    by code_simp+
  have ok: "\<forall>e\<in>set ?es. \<forall>d. e = JObj d \<longrightarrow> (\<exists>k. extract_code d = Inr k)"
    using x by simp
  have hF: "2 < length ?es \<and> entry_code (?es ! 2) = Some ''004-006-008'' \<and>
            (\<forall>e\<in>set ?es. \<forall>d. e = JObj d \<longrightarrow> (\<exists>k. extract_code d = Inr k))"
    using c ok by simp
  have p: "process_file (JArr ?es) =
     Inr [JObj [(''id'', JStr ''Volume1-004''), (''bfCode'', JStr ''004''),
                (''hierarchy'', JObj [(''broader'', JNull), (''narrower'', JArr [])])],
          JObj [(''id'', JStr ''Volume1-006''), (''bfCode'', JStr ''006''),
                (''hierarchy'', JObj [(''broader'', JNull), (''narrower'', JArr [])])],
          JObj [(''id'', JStr ''Volume1-004-006-008''), (''bfCode'', JStr ''004-006-008''),
                (''hierarchy'', JObj [(''broader'', JNull), (''narrower'', JArr [])])]]"
    by code_simp
  note r = malformed_range_is_isolated[OF h, of "{''004'', ''006''}"
      "[''004'', ''006'', ''004-006-008'']" 2 ?es]
  from r have 1: "compute_broader ''004-006-008'' {''004'', ''006''} = None"
    by (rule conjunct1)
  from r[THEN conjunct2] have 2: "range_parent ''004-006-008'' {''004'', ''006''} = None"
    by (rule conjunct1)
  from r[THEN conjunct2, THEN conjunct2]
  have 3: "expand_range_children ''004-006-008'' {''004'', ''006''} = {}"
    by (rule conjunct1)
  from r[THEN conjunct2, THEN conjunct2, THEN conjunct2, THEN conjunct1, rule_format, OF d]
  have 4: "\<exists>m. build_child_map [''004'', ''006'', ''004-006-008''] = Inr m \<and>
        map_of m ''004-006-008'' = Some {} \<and>
        (\<forall>p s. map_of m p = Some s \<longrightarrow> ''004-006-008'' \<notin> s)"
    by (rule conjunct2)
  from r[THEN conjunct2, THEN conjunct2, THEN conjunct2, THEN conjunct2, rule_format, OF hF]
  obtain out where o: "process_file (JArr ?es) = Inr out"
    "entry_hierarchy (out ! 2) = hierarchy_json None []" by blast
  then have 5: "\<exists>out. process_file (JArr ?es) = Inr out \<and>
          entry_hierarchy (out ! 2) = hierarchy_json None []" by blast
  from d have d1: "distinct [''004'', ''006'', ''004-006-008'']"
    and d2: "''004-006-008'' \<in> set [''004'', ''006'', ''004-006-008'']" by simp_all
  from h 1 2 3 d1 d2 4 c 5 p show ?thesis by (intro conjI)
qed

end
